theory Spec2Isabelle
  imports Main "HOL-Library.Word"
begin

section \<open>go-data-buffer: buckets and buffers over an injected filesystem\<close>

text \<open>
  The package has two types. A \<open>Bucket\<close> (bucket.go) is one data sink: a file of the
  injected filesystem \<open>afero.Fs\<close>, written through a \<open>bufio.Writer\<close>, with an \<open>open\<close>
  flag and two counters. A \<open>Buffer\<close> owns a Go map from names to \<open>*Bucket\<close>.

  Go mutates in place and returns an \<open>error\<close>; every operation of the model takes the
  state and returns the error (\<open>None\<close> for \<open>nil\<close>) together with the state as the
  call leaves it, because a call that returns an error may already have changed it.
  A run-time panic (a method call through a nil pointer) is the error value \<open>PanicNil\<close>.
  The mutexes are not modelled: calls are sequential.
\<close>

type_synonym byte = "8 word"
type_synonym path = string

datatype error =
    ErrAlreadyOpen   \<comment> \<open>"bucket already open"\<close>
  | ErrNotOpen       \<comment> \<open>"bucket not accepting writes, make sure to open it first"\<close>
  | ErrStillOpen     \<comment> \<open>"bucket accepting writes, make sure to close before reading"\<close>
  | EOF              \<comment> \<open>io.EOF\<close>
  | ErrNoProgress    \<comment> \<open>io.ErrNoProgress\<close>
  | ErrNotExist      \<comment> \<open>the filesystem's "file does not exist"\<close>
  | ErrIsDir         \<comment> \<open>the filesystem's "is a directory"\<close>
  | ErrNotDir        \<comment> \<open>the filesystem's "not a directory"\<close>
  | ErrShortWrite    \<comment> \<open>io.ErrShortWrite\<close>
  | ErrIO            \<comment> \<open>any other failure of the storage\<close>
  | PanicNil         \<comment> \<open>nil pointer dereference\<close>

subsection \<open>Paths: filepath.Clean and filepath.Join\<close>

text \<open>
  \<open>Buffer.Get\<close> places a bucket at \<open>filepath.Join(b.root, name)\<close>. The standard
  library's \<open>Join\<close> (Unix) glues the elements from the first non-empty one on with
  \<open>/\<close> and cleans the result lexically: empty and \<open>.\<close> elements go, \<open>..\<close> removes the
  element before it (at the start of a rooted path it is dropped, of a relative one kept),
  and the empty result is \<open>.\<close>.
\<close>

fun split_path :: "path \<Rightarrow> string list" where
  "split_path [] = [[]]"
| "split_path (c # cs) =
     (if c = CHR ''/'' then [] # split_path cs
      else (case split_path cs of [] \<Rightarrow> [[c]] | e # es \<Rightarrow> (c # e) # es))"

fun join_elems :: "string list \<Rightarrow> path" where
  "join_elems [] = []"
| "join_elems [e] = e"
| "join_elems (e # es) = e @ ''/'' @ join_elems es"

fun clean_elems :: "bool \<Rightarrow> string list \<Rightarrow> string list \<Rightarrow> string list" where
  "clean_elems rooted out [] = rev out"
| "clean_elems rooted out (e # es) =
     (if e = [] \<or> e = ''.'' then clean_elems rooted out es
      else if e = ''..'' then
        (case out of
           [] \<Rightarrow> if rooted then clean_elems rooted out es else clean_elems rooted [e] es
         | t # ts \<Rightarrow> if t = ''..'' then clean_elems rooted (e # out) es
                     else clean_elems rooted ts es)
      else clean_elems rooted (e # out) es)"

definition Clean :: "path \<Rightarrow> path" where
  "Clean p =
     (if p = [] then ''.''
      else let rooted = (hd p = CHR ''/'');
               s = join_elems (clean_elems rooted [] (split_path p))
           in if rooted then CHR ''/'' # s else if s = [] then ''.'' else s)"

definition Join :: "path \<Rightarrow> path \<Rightarrow> path" where
  "Join a b =
     (if a \<noteq> [] then Clean (a @ ''/'' @ b)
      else if b \<noteq> [] then Clean b
      else [])"

subsection \<open>The filesystem (afero.Fs) and its file handles (afero.File)\<close>

text \<open>
  The filesystem is injected and not part of the package. It is modelled after the
  capability the package relies on: create-file-at-path (truncating), remove-file-at-path,
  make-directory and remove-directory-recursive, and file handles with write, seek and
  read at a cursor. Directory entries map cleaned paths to inodes; an inode keeps its
  data after its entry is removed, so a handle opened before \<open>Remove\<close> still works, as on
  Unix. \<open>MkdirAll\<close> records the directory itself only, and \<open>Create\<close> does not ask for the
  parent directory (as afero's in-memory filesystem, which the tests use).

  Storage failures are decided by the environment: \<open>faults\<close> is the schedule of the
  coming filesystem calls, one entry per call, \<open>True\<close> for a call that fails with
  \<open>ErrIO\<close> and does nothing else. An exhausted schedule means no more failures.
\<close>

record Fs =
  files :: "path \<rightharpoonup> nat"
  dirs :: "path set"
  contents :: "nat \<Rightarrow> byte list"
  inodes :: nat
  faults :: "bool list"

record File =
  fname :: path
  ino :: nat
  pos :: nat

definition fault :: "Fs \<Rightarrow> bool \<times> Fs" where
  "fault fs = (case faults fs of [] \<Rightarrow> (False, fs) | x # xs \<Rightarrow> (x, fs\<lparr>faults := xs\<rparr>))"

definition Fs_Create :: "path \<Rightarrow> Fs \<Rightarrow> (error + File) \<times> Fs" where
  "Fs_Create p fs0 =
     (case fault fs0 of (bad, fs) \<Rightarrow>
        if bad then (Inl ErrIO, fs)
        else if Clean p \<in> dirs fs then (Inl ErrIsDir, fs)
        else (case files fs (Clean p) of
                Some i \<Rightarrow> (Inr \<lparr>fname = p, ino = i, pos = 0\<rparr>,
                           fs\<lparr>contents := (contents fs)(i := [])\<rparr>)
              | None \<Rightarrow> (Inr \<lparr>fname = p, ino = inodes fs, pos = 0\<rparr>,
                         fs\<lparr>files := (files fs)(Clean p \<mapsto> inodes fs),
                            contents := (contents fs)(inodes fs := []),
                            inodes := Suc (inodes fs)\<rparr>)))"

definition Fs_Remove :: "path \<Rightarrow> Fs \<Rightarrow> error option \<times> Fs" where
  "Fs_Remove p fs0 =
     (case fault fs0 of (bad, fs) \<Rightarrow>
        if bad then (Some ErrIO, fs)
        else if files fs (Clean p) = None then (Some ErrNotExist, fs)
        else (None, fs\<lparr>files := (files fs)(Clean p := None)\<rparr>))"

definition Fs_MkdirAll :: "path \<Rightarrow> Fs \<Rightarrow> error option \<times> Fs" where
  "Fs_MkdirAll p fs0 =
     (case fault fs0 of (bad, fs) \<Rightarrow>
        if bad then (Some ErrIO, fs)
        else if files fs (Clean p) \<noteq> None then (Some ErrNotDir, fs)
        else (None, fs\<lparr>dirs := insert (Clean p) (dirs fs)\<rparr>))"

definition under :: "path \<Rightarrow> path \<Rightarrow> bool" where
  "under d q = (q = d \<or> take (Suc (length d)) q = d @ ''/'')"

definition Fs_RemoveAll :: "path \<Rightarrow> Fs \<Rightarrow> error option \<times> Fs" where
  "Fs_RemoveAll p fs0 =
     (case fault fs0 of (bad, fs) \<Rightarrow>
        if bad then (Some ErrIO, fs)
        else (None, fs\<lparr>files := (\<lambda>q. if under (Clean p) q then None else files fs q),
                       dirs := {q \<in> dirs fs. \<not> under (Clean p) q}\<rparr>))"

definition Fs_Exists :: "path \<Rightarrow> Fs \<Rightarrow> bool" where
  "Fs_Exists p fs = (files fs (Clean p) \<noteq> None \<or> Clean p \<in> dirs fs)"

text \<open>\<open>afero.NewMemMapFs()\<close>, the filesystem of the tests: empty, and it never fails.\<close>

definition NewMemMapFs :: Fs where
  "NewMemMapFs = \<lparr>files = Map.empty, dirs = {}, contents = (\<lambda>i. []), inodes = 0, faults = []\<rparr>"

text \<open>
  A write puts the bytes at the cursor (filling a gap with zeros, keeping what lies
  behind them) and moves the cursor; it writes all of them or, failing, none.
\<close>

definition pwrite :: "nat \<Rightarrow> byte list \<Rightarrow> byte list \<Rightarrow> byte list" where
  "pwrite at d old = take at old @ replicate (at - length old) 0 @ d @ drop (at + length d) old"

definition File_Write :: "byte list \<Rightarrow> Fs \<times> File \<Rightarrow> (nat \<times> error option) \<times> Fs \<times> File" where
  "File_Write d s =
     (case s of (fs0, f) \<Rightarrow>
        (case fault fs0 of (bad, fs) \<Rightarrow>
           if bad then ((0, Some ErrIO), fs, f)
           else ((length d, None),
                 fs\<lparr>contents := (contents fs)(ino f := pwrite (pos f) d (contents fs (ino f)))\<rparr>,
                 f\<lparr>pos := pos f + length d\<rparr>)))"

text \<open>\<open>Seek(0, 0)\<close>: offset 0 from the start of the file.\<close>

definition File_Seek0 :: "Fs \<times> File \<Rightarrow> error option \<times> Fs \<times> File" where
  "File_Seek0 s =
     (case s of (fs0, f) \<Rightarrow>
        (case fault fs0 of (bad, fs) \<Rightarrow>
           if bad then (Some ErrIO, fs, f) else (None, fs, f\<lparr>pos := 0\<rparr>)))"

text \<open>
  \<open>Read(p)\<close> with \<open>len(p) = k\<close>: up to \<open>k\<close> bytes from the cursor; \<open>io.EOF\<close> with no
  bytes at the end of the data; nothing and no error for an empty \<open>p\<close>.
\<close>

definition File_Read :: "nat \<Rightarrow> Fs \<times> File \<Rightarrow> (byte list \<times> error option) \<times> Fs \<times> File" where
  "File_Read k s =
     (case s of (fs0, f) \<Rightarrow>
        (case fault fs0 of (bad, fs) \<Rightarrow>
           if bad then (([], Some ErrIO), fs, f)
           else if k = 0 then (([], None), fs, f)
           else if length (contents fs (ino f)) \<le> pos f then (([], Some EOF), fs, f)
           else let d = take k (drop (pos f) (contents fs (ino f)))
                in ((d, None), fs, f\<lparr>pos := pos f + length d\<rparr>)))"

subsection \<open>bufio.Writer\<close>

text \<open>
  \<open>bufio.NewWriter(file)\<close> is a buffer of \<open>defaultBufSize\<close> bytes in front of the file,
  with a sticky error. The writer's \<open>wr\<close> is the very handle the bucket keeps in
  \<open>file\<close> (both are set together in \<open>create\<close>), so the model keeps the handle once, in
  the bucket, and hands it to the writer's operations.
\<close>

definition defaultBufSize :: nat where
  "defaultBufSize = 4096"

record Writer =
  wbuf :: "byte list"
  werr :: "error option"

definition NewWriter :: Writer where
  "NewWriter = \<lparr>wbuf = [], werr = None\<rparr>"

definition Available :: "Writer \<Rightarrow> nat" where
  "Available w = defaultBufSize - length (wbuf w)"

definition Buffered :: "Writer \<Rightarrow> nat" where
  "Buffered w = length (wbuf w)"

definition bufio_Flush :: "Fs \<times> File \<times> Writer \<Rightarrow> error option \<times> Fs \<times> File \<times> Writer" where
  "bufio_Flush s =
     (case s of (fs, f, w) \<Rightarrow>
        if werr w \<noteq> None then (werr w, fs, f, w)
        else if Buffered w = 0 then (None, fs, f, w)
        else (case File_Write (wbuf w) (fs, f) of
                ((n, Some e), fs', f') \<Rightarrow> (Some e, fs', f', w\<lparr>wbuf := drop n (wbuf w), werr := Some e\<rparr>)
              | ((n, None), fs', f') \<Rightarrow>
                  if n < Buffered w
                  then (Some ErrShortWrite, fs', f',
                        w\<lparr>wbuf := drop n (wbuf w), werr := Some ErrShortWrite\<rparr>)
                  else (None, fs', f', w\<lparr>wbuf := []\<rparr>)))"

text \<open>
  \<open>Writer.Write(p)\<close>: while \<open>p\<close> does not fit and no error is set, a large write into
  an empty buffer goes to the file directly, otherwise the buffer is filled up and
  flushed; what is left is copied into the buffer. The caller reads the error only.
\<close>

function bufio_Write :: "byte list \<Rightarrow> Fs \<times> File \<times> Writer \<Rightarrow> error option \<times> Fs \<times> File \<times> Writer" where
  "bufio_Write p (fs, f, w) =
     (if Available w < length p \<and> werr w = None then
        (if Buffered w = 0 then
           (case File_Write p (fs, f) of
              ((n, e), fs', f') \<Rightarrow> bufio_Write (drop n p) (fs', f', w\<lparr>werr := e\<rparr>))
         else
           (case bufio_Flush (fs, f, w\<lparr>wbuf := wbuf w @ take (Available w) p\<rparr>) of
              (e, s') \<Rightarrow> bufio_Write (drop (Available w) p) s'))
      else if werr w \<noteq> None then (werr w, fs, f, w)
      else (None, fs, f, w\<lparr>wbuf := wbuf w @ p\<rparr>))"
  by pat_completeness auto
termination
  apply (relation "measures [\<lambda>(p, fs, f, w). if werr w = None then 1 else 0,
                            \<lambda>(p, fs, f, w). length p,
                            \<lambda>(p, fs, f, w). length (wbuf w)]")
    apply simp
   apply (auto simp: File_Write_def fault_def split: if_splits prod.splits list.splits)[1]
  apply (auto simp: bufio_Flush_def File_Write_def fault_def Buffered_def Available_def
              split: if_splits prod.splits option.splits list.splits)
  done

declare bufio_Write.simps [simp del]

subsection \<open>Bucket (bucket.go)\<close>

text \<open>
  The struct's \<open>fs\<close> field points to the injected filesystem, which every bucket of a
  buffer shares: a bucket operation works on the pair of that filesystem and the bucket.
  \<open>file\<close> and \<open>writer\<close> are nil (\<open>None\<close>) until \<open>create\<close> sets both. \<open>writes\<close>
  is a \<open>uint\<close> (64 bits on the usual targets) and \<open>bytes\<close> a \<open>uint64\<close>; both wrap.
\<close>

record Bucket =
  path :: path
  "file" :: "File option"
  "open" :: bool
  writer :: "Writer option"
  writes :: "64 word"
  bytes :: "64 word"

type_synonym bstate = "Fs \<times> Bucket"

definition NewBucket :: "path \<Rightarrow> Bucket" where
  "NewBucket p = \<lparr>path = p, file = None, open = False, writer = None, writes = 0, bytes = 0\<rparr>"

definition create :: "bstate \<Rightarrow> error option \<times> bstate" where
  "create s =
     (case s of (fs, b) \<Rightarrow>
        (case Fs_Create (path b) fs of
           (Inl e, fs') \<Rightarrow> (Some e, fs', b)
         | (Inr f, fs') \<Rightarrow> (None, fs', b\<lparr>file := Some f, writer := Some NewWriter\<rparr>)))"

definition Bucket_Open :: "bstate \<Rightarrow> error option \<times> bstate" where
  "Bucket_Open s =
     (case s of (fs, b) \<Rightarrow>
        if open b then (Some ErrAlreadyOpen, fs, b)
        else (case create (fs, b) of
                (Some e, s') \<Rightarrow> (Some e, s')
              | (None, fs', b') \<Rightarrow> (None, fs', b'\<lparr>open := True\<rparr>)))"

text \<open>
  A call on \<open>b.writer\<close>: a nil writer panics; otherwise the writer works on the handle
  it was made for, which is \<open>b.file\<close>.
\<close>

definition on_writer ::
  "(Fs \<times> File \<times> Writer \<Rightarrow> error option \<times> Fs \<times> File \<times> Writer) \<Rightarrow> bstate \<Rightarrow> error option \<times> bstate" where
  "on_writer m s =
     (case s of (fs, b) \<Rightarrow>
        (case writer b of
           None \<Rightarrow> (Some PanicNil, fs, b)
         | Some w \<Rightarrow>
             (case file b of
                None \<Rightarrow> (Some PanicNil, fs, b)
              | Some f \<Rightarrow>
                  (case m (fs, f, w) of
                     (e, fs', f', w') \<Rightarrow> (e, fs', b\<lparr>file := Some f', writer := Some w'\<rparr>)))))"

definition flush :: "bstate \<Rightarrow> error option \<times> bstate" where
  "flush s = on_writer bufio_Flush s"

definition Bucket_Flush :: "bstate \<Rightarrow> error option \<times> bstate" where
  "Bucket_Flush s = flush s"

definition Bucket_Close :: "bstate \<Rightarrow> error option \<times> bstate" where
  "Bucket_Close s =
     (case flush s of
        (Some e, s') \<Rightarrow> (Some e, s')
      | (None, fs, b) \<Rightarrow>
          (case file b of
             None \<Rightarrow> (Some PanicNil, fs, b\<lparr>open := False\<rparr>)
           | Some f \<Rightarrow>
               (case File_Seek0 (fs, f) of
                  (e, fs', f') \<Rightarrow> (e, fs', b\<lparr>open := False, file := Some f'\<rparr>))))"

definition Bucket_Destroy :: "bstate \<Rightarrow> error option \<times> bstate" where
  "Bucket_Destroy s =
     (case s of (fs, b) \<Rightarrow>
        (case file b of
           None \<Rightarrow> (Some PanicNil, fs, b)
         | Some f \<Rightarrow>
             (case Fs_Remove (fname f) fs of
                (Some e, fs') \<Rightarrow> (Some e, fs', b)
              | (None, fs') \<Rightarrow> (None, fs', b\<lparr>writes := 0, bytes := 0\<rparr>))))"

definition Bucket_Write :: "byte list \<Rightarrow> bstate \<Rightarrow> error option \<times> bstate" where
  "Bucket_Write data s =
     (case s of (fs, b) \<Rightarrow>
        if \<not> open b then (Some ErrNotOpen, fs, b)
        else (case on_writer (bufio_Write data) (fs, b) of
                (Some e, s') \<Rightarrow> (Some e, s')
              | (None, fs', b') \<Rightarrow>
                  (None, fs', b'\<lparr>writes := writes b' + 1,
                                 bytes := bytes b' + of_nat (length data)\<rparr>)))"

definition Bucket_Writes :: "Bucket \<Rightarrow> 64 word" where
  "Bucket_Writes b = writes b"

definition Bucket_Bytes :: "Bucket \<Rightarrow> 64 word" where
  "Bucket_Bytes b = bytes b"

definition Bucket_Read :: "nat \<Rightarrow> bstate \<Rightarrow> (byte list \<times> error option) \<times> bstate" where
  "Bucket_Read k s =
     (case s of (fs, b) \<Rightarrow>
        if open b then (([], Some ErrStillOpen), fs, b)
        else (case file b of
                None \<Rightarrow> (([], Some PanicNil), fs, b)
              | Some f \<Rightarrow>
                  (case File_Read k (fs, f) of
                     (r, fs', f') \<Rightarrow> (r, fs', b\<lparr>file := Some f'\<rparr>))))"

subsection \<open>Using a bucket: sequences of calls, reading to the end\<close>

text \<open>
  Reading a bucket to exhaustion is what \<open>ioutil.ReadAll(bucket)\<close> does in the tests:
  it calls \<open>Read\<close> with a buffer of \<open>k\<close> bytes, appends what it got, and goes on until
  an error; \<open>io.EOF\<close> ends it without error. (A reader given an empty buffer would
  never make progress; the model ends that with \<open>ErrNoProgress\<close>.)
\<close>

definition remaining :: "bstate \<Rightarrow> nat" where
  "remaining s =
     (case s of (fs, b) \<Rightarrow>
        (case file b of None \<Rightarrow> 0 | Some f \<Rightarrow> length (contents fs (ino f)) - pos f))"

function ReadAll :: "nat \<Rightarrow> bstate \<Rightarrow> (byte list \<times> error option) \<times> bstate" where
  "ReadAll k s =
     (if k = 0 then (([], Some ErrNoProgress), s)
      else (case Bucket_Read k s of
              ((d, Some e), s') \<Rightarrow> ((d, if e = EOF then None else Some e), s')
            | ((d, None), s') \<Rightarrow>
                (case ReadAll k s' of ((r, e), s'') \<Rightarrow> ((d @ r, e), s''))))"
  by pat_completeness auto
termination
  apply (relation "measure (\<lambda>(k, s). remaining s)")
   apply simp
  apply (auto simp: remaining_def Bucket_Read_def File_Read_def fault_def Let_def
              split: if_splits prod.splits option.splits list.splits)
  done

declare ReadAll.simps [simp del]

text \<open>
  A caller's sequence of calls on one bucket. \<open>Write_all\<close> is a run of writes that all
  succeed (it stops at the first that does not); \<open>bucket_run\<close> is any sequence of
  calls, each made whatever the one before returned, and \<open>accepted\<close> lists the payloads
  of the writes of such a sequence that returned nil.
\<close>

fun Write_all :: "byte list list \<Rightarrow> bstate \<Rightarrow> error option \<times> bstate" where
  "Write_all [] s = (None, s)"
| "Write_all (d # ds) s =
     (case Bucket_Write d s of
        (Some e, s') \<Rightarrow> (Some e, s')
      | (None, s') \<Rightarrow> Write_all ds s')"

datatype bucket_call =
  Call_Open | Call_Close | Call_Destroy | Call_Flush | Call_Write "byte list" | Call_Read nat

fun bucket_exec :: "bucket_call \<Rightarrow> bstate \<Rightarrow> error option \<times> bstate" where
  "bucket_exec Call_Open s = Bucket_Open s"
| "bucket_exec Call_Close s = Bucket_Close s"
| "bucket_exec Call_Destroy s = Bucket_Destroy s"
| "bucket_exec Call_Flush s = Bucket_Flush s"
| "bucket_exec (Call_Write d) s = Bucket_Write d s"
| "bucket_exec (Call_Read k) s = (case Bucket_Read k s of ((d, e), s') \<Rightarrow> (e, s'))"

fun bucket_run :: "bucket_call list \<Rightarrow> bstate \<Rightarrow> bstate" where
  "bucket_run [] s = s"
| "bucket_run (c # cs) s = bucket_run cs (snd (bucket_exec c s))"

fun accepted :: "bucket_call list \<Rightarrow> bstate \<Rightarrow> byte list list" where
  "accepted [] s = []"
| "accepted (c # cs) s =
     (case c of
        Call_Write d \<Rightarrow> (if fst (bucket_exec c s) = None then [d] else [])
      | _ \<Rightarrow> [])
     @ accepted cs (snd (bucket_exec c s))"

subsection \<open>What a bucket holds\<close>

text \<open>
  The bytes a writer has taken so far are those in the file followed by those still in
  its buffer (\<open>stored\<close>); in normal operation the cursor stands at the end of the file
  and no error is set (\<open>appending\<close>). A bucket is \<open>writing X\<close> when it is open and
  holds \<open>X\<close> in this sense in the file at its path, and \<open>readable X n\<close> when it is
  closed on a file with data \<open>X\<close> and the cursor at \<open>n\<close>.
\<close>

definition stored :: "Fs \<times> File \<times> Writer \<Rightarrow> byte list" where
  "stored t = (case t of (fs, f, w) \<Rightarrow> contents fs (ino f) @ wbuf w)"

definition appending :: "Fs \<times> File \<times> Writer \<Rightarrow> bool" where
  "appending t = (case t of (fs, f, w) \<Rightarrow> pos f = length (contents fs (ino f)) \<and> werr w = None)"

definition same_file :: "Fs \<times> File \<times> Writer \<Rightarrow> Fs \<times> File \<times> Writer \<Rightarrow> bool" where
  "same_file t t' =
     (case t of (fs, f, w) \<Rightarrow> case t' of (fs', f', w') \<Rightarrow>
        ino f' = ino f \<and> fname f' = fname f \<and> files fs' = files fs \<and> dirs fs' = dirs fs)"

definition writing :: "byte list \<Rightarrow> bstate \<Rightarrow> bool" where
  "writing X s =
     (case s of (fs, b) \<Rightarrow>
        open b \<and>
        (case file b of
           None \<Rightarrow> False
         | Some f \<Rightarrow>
             (case writer b of
                None \<Rightarrow> False
              | Some w \<Rightarrow>
                  appending (fs, f, w) \<and> stored (fs, f, w) = X \<and>
                  fname f = path b \<and> files fs (Clean (path b)) = Some (ino f))))"

definition readable :: "byte list \<Rightarrow> nat \<Rightarrow> bstate \<Rightarrow> bool" where
  "readable X n s =
     (case s of (fs, b) \<Rightarrow>
        \<not> open b \<and>
        (case file b of
           None \<Rightarrow> False
         | Some f \<Rightarrow> pos f = n \<and> contents fs (ino f) = X))"

text \<open>The life of a bucket in the tests: open it, write the payloads, close it.\<close>

definition Open_Write_Close :: "byte list list \<Rightarrow> bstate \<Rightarrow> error option \<times> bstate" where
  "Open_Write_Close ds s =
     (case Bucket_Open s of
        (Some e, s1) \<Rightarrow> (Some e, s1)
      | (None, s1) \<Rightarrow>
          (case Write_all ds s1 of
             (Some e, s2) \<Rightarrow> (Some e, s2)
           | (None, s2) \<Rightarrow> Bucket_Close s2))"

subsection \<open>Buffer\<close>

text \<open>
  \<open>Buffer.buckets\<close> is a \<open>map[string]*Bucket\<close>: the values are pointers, and two
  lookups of a name give the same bucket object. The model keeps the bucket objects in
  a heap indexed by address; \<open>NewBucket\<close> takes the next address, so \<open>allocs\<close> counts
  the bucket objects made so far. The \<open>fs\<close> field of the buffer and of each of its
  buckets is the one filesystem of the world.

  Go visits a map in an order of its own choosing, anew for each \<open>range\<close>. A function
  with a \<open>range\<close> loop takes the order of that visit as its first argument: a list
  of the names in the map.
\<close>

record Buffer =
  root :: path
  buckets :: "string \<rightharpoonup> nat"

record World =
  world_fs :: Fs
  heap :: "nat \<Rightarrow> Bucket"
  allocs :: nat
  buffer :: Buffer

definition NewBuffer :: "path \<Rightarrow> Fs \<Rightarrow> World" where
  "NewBuffer r fs =
     \<lparr>world_fs = fs, heap = (\<lambda>a. NewBucket []), allocs = 0,
      buffer = \<lparr>root = r, buckets = Map.empty\<rparr>\<rparr>"

text \<open>A bucket method called through the pointer \<open>a\<close>.\<close>

definition on_bucket :: "(bstate \<Rightarrow> error option \<times> bstate) \<Rightarrow> nat \<Rightarrow> World \<Rightarrow> error option \<times> World" where
  "on_bucket m a w =
     (case m (world_fs w, heap w a) of
        (e, fs', b') \<Rightarrow> (e, w\<lparr>world_fs := fs', heap := (heap w)(a := b')\<rparr>))"

definition Buffer_Open :: "World \<Rightarrow> error option \<times> World" where
  "Buffer_Open w =
     (case Fs_MkdirAll (root (buffer w)) (world_fs w) of
        (e, fs') \<Rightarrow> (e, w\<lparr>world_fs := fs'\<rparr>))"

fun Close_range :: "string list \<Rightarrow> World \<Rightarrow> error option \<times> World" where
  "Close_range [] w = (None, w)"
| "Close_range (k # ks) w =
     (case buckets (buffer w) k of
        None \<Rightarrow> Close_range ks w
      | Some a \<Rightarrow>
          (case on_bucket Bucket_Close a w of
             (Some e, w') \<Rightarrow> (Some e, w')
           | (None, w') \<Rightarrow> Close_range ks w'))"

definition Buffer_Close :: "string list \<Rightarrow> World \<Rightarrow> error option \<times> World" where
  "Buffer_Close ks w = Close_range ks w"

text \<open>The eager \<open>Get\<close>: a new bucket is opened before it enters the map.\<close>

definition Get :: "string \<Rightarrow> World \<Rightarrow> (error + nat) \<times> World" where
  "Get name w =
     (case buckets (buffer w) name of
        Some a \<Rightarrow> (Inr a, w)
      | None \<Rightarrow>
          (let a = allocs w;
               w1 = w\<lparr>heap := (heap w)(a := NewBucket (Join (root (buffer w)) name)),
                      allocs := Suc a\<rparr>
           in (case on_bucket Bucket_Open a w1 of
                 (Some e, w2) \<Rightarrow> (Inl e, w2)
               | (None, w2) \<Rightarrow>
                   (Inr a, w2\<lparr>buffer := (buffer w2)\<lparr>buckets := (buckets (buffer w2))(name \<mapsto> a)\<rparr>\<rparr>))))"

text \<open>The lazy \<open>Get\<close> of the earlier revision: the new bucket enters the map unopened.\<close>

definition Get_lazy :: "string \<Rightarrow> World \<Rightarrow> (error + nat) \<times> World" where
  "Get_lazy name w =
     (case buckets (buffer w) name of
        Some a \<Rightarrow> (Inr a, w)
      | None \<Rightarrow>
          (let a = allocs w
           in (Inr a,
               w\<lparr>heap := (heap w)(a := NewBucket (Join (root (buffer w)) name)),
                 allocs := Suc a,
                 buffer := (buffer w)\<lparr>buckets := (buckets (buffer w))(name \<mapsto> a)\<rparr>\<rparr>)))"

text \<open>
  \<open>Write\<close>: the bucket from \<open>Get\<close>, then \<open>Bucket.Write\<close>. One payload per call,
  as \<open>Bucket.Write\<close> of bucket.go takes it (the latest revision of the buffer passes
  several payloads on to a variadic \<open>Bucket.Write\<close> that is not among the sources).
\<close>

definition Buffer_Write :: "string \<Rightarrow> byte list \<Rightarrow> World \<Rightarrow> error option \<times> World" where
  "Buffer_Write name data w =
     (case Get name w of
        (Inl e, w') \<Rightarrow> (Some e, w')
      | (Inr a, w') \<Rightarrow> on_bucket (Bucket_Write data) a w')"

definition Buffer_Buckets :: "string list \<Rightarrow> World \<Rightarrow> string list" where
  "Buffer_Buckets ks w = filter (\<lambda>k. buckets (buffer w) k \<noteq> None) ks"

fun Destroy_range :: "string list \<Rightarrow> World \<Rightarrow> error option \<times> World" where
  "Destroy_range [] w = (None, w)"
| "Destroy_range (k # ks) w =
     (case buckets (buffer w) k of
        None \<Rightarrow> Destroy_range ks w
      | Some a \<Rightarrow>
          (case on_bucket Bucket_Destroy a w of
             (Some e, w') \<Rightarrow> (Some e, w')
           | (None, w') \<Rightarrow> Destroy_range ks w'))"

definition Buffer_Reset :: "string list \<Rightarrow> World \<Rightarrow> error option \<times> World" where
  "Buffer_Reset ks w =
     (case Destroy_range ks w of
        (Some e, w') \<Rightarrow> (Some e, w')
      | (None, w') \<Rightarrow> (None, w'\<lparr>buffer := (buffer w')\<lparr>buckets := Map.empty\<rparr>\<rparr>))"

definition Buffer_Destroy :: "string list \<Rightarrow> World \<Rightarrow> error option \<times> World" where
  "Buffer_Destroy ks w =
     (case Buffer_Reset ks w of
        (Some e, w') \<Rightarrow> (Some e, w')
      | (None, w') \<Rightarrow>
          (case Fs_RemoveAll (root (buffer w')) (world_fs w') of
             (e, fs') \<Rightarrow> (e, w'\<lparr>world_fs := fs'\<rparr>)))"

fun Writes_range :: "string list \<Rightarrow> World \<Rightarrow> 64 word \<Rightarrow> 64 word" where
  "Writes_range [] w count = count"
| "Writes_range (k # ks) w count =
     (case buckets (buffer w) k of
        None \<Rightarrow> Writes_range ks w count
      | Some a \<Rightarrow> Writes_range ks w (count + Bucket_Writes (heap w a)))"

definition Buffer_Writes :: "string list \<Rightarrow> World \<Rightarrow> 64 word" where
  "Buffer_Writes ks w = Writes_range ks w 0"

fun Bytes_range :: "string list \<Rightarrow> World \<Rightarrow> 64 word \<Rightarrow> 64 word" where
  "Bytes_range [] w count = count"
| "Bytes_range (k # ks) w count =
     (case buckets (buffer w) k of
        None \<Rightarrow> Bytes_range ks w count
      | Some a \<Rightarrow> Bytes_range ks w (count + Bucket_Bytes (heap w a)))"

definition Buffer_Bytes :: "string list \<Rightarrow> World \<Rightarrow> 64 word" where
  "Buffer_Bytes ks w = Bytes_range ks w 0"

definition Buffer_Size :: "World \<Rightarrow> 64 word" where
  "Buffer_Size w = of_nat (card (dom (buckets (buffer w))))"

text \<open>
  The calls that change a buffer, for sequences of them: the buffer's own methods, and
  the methods of a bucket called through a pointer the caller got from \<open>Get\<close>.
\<close>

datatype call =
    Do_Open
  | Do_Close "string list"
  | Do_Destroy "string list"
  | Do_Reset "string list"
  | Do_Get string
  | Do_Write string "byte list"
  | Do_Bucket nat bucket_call

fun exec :: "call \<Rightarrow> World \<Rightarrow> error option \<times> World" where
  "exec Do_Open w = Buffer_Open w"
| "exec (Do_Close ks) w = Buffer_Close ks w"
| "exec (Do_Destroy ks) w = Buffer_Destroy ks w"
| "exec (Do_Reset ks) w = Buffer_Reset ks w"
| "exec (Do_Get name) w = (case Get name w of (Inl e, w') \<Rightarrow> (Some e, w') | (Inr a, w') \<Rightarrow> (None, w'))"
| "exec (Do_Write name d) w = Buffer_Write name d w"
| "exec (Do_Bucket a c) w = on_bucket (bucket_exec c) a w"

fun run :: "call list \<Rightarrow> World \<Rightarrow> World" where
  "run [] w = w"
| "run (c # cs) w = run cs (snd (exec c w))"

fun resets :: "call \<Rightarrow> bool" where
  "resets (Do_Reset ks) = True"
| "resets (Do_Destroy ks) = True"
| "resets c = False"

subsection \<open>States of the tests\<close>

text \<open>
  The buffer of the test suite with two buckets written (\<open>two_buckets\<close>), the same
  after \<open>Buffer.Open\<close> has made the root directory (\<open>two_in_root\<close>), and a buffer
  with three buckets on a storage whose fifth call will fail: three \<open>Create\<close>, the
  \<open>Seek\<close> of the first \<open>Close\<close>, and then the failing \<open>Seek\<close> of the second.
\<close>

abbreviation two_buckets :: World where
  "two_buckets \<equiv> run [Do_Write ''1'' [1, 2, 3], Do_Write ''2'' [4]] (NewBuffer ''./test'' NewMemMapFs)"

abbreviation two_in_root :: World where
  "two_in_root \<equiv>
     run [Do_Open, Do_Write ''1'' [1, 2, 3], Do_Write ''2'' [4]] (NewBuffer ''./test'' NewMemMapFs)"

abbreviation third_seek_fails :: World where
  "third_seek_fails \<equiv>
     run [Do_Get ''1'', Do_Get ''2'', Do_Get ''3'']
         (NewBuffer ''./test'' (NewMemMapFs\<lparr>faults := [False, False, False, False, True]\<rparr>))"

section \<open>Properties\<close>

subsection \<open>Evaluating the model on concrete states\<close>

lemmas fs_defs =
  fault_def Fs_Create_def Fs_Remove_def Fs_MkdirAll_def Fs_RemoveAll_def NewMemMapFs_def
  File_Write_def File_Seek0_def File_Read_def pwrite_def

lemmas bufio_defs =
  NewWriter_def Available_def Buffered_def defaultBufSize_def bufio_Flush_def bufio_Write.simps

lemmas bucket_defs =
  NewBucket_def create_def Bucket_Open_def on_writer_def flush_def Bucket_Flush_def
  Bucket_Close_def Bucket_Destroy_def Bucket_Write_def Bucket_Read_def
  Bucket_Writes_def Bucket_Bytes_def

lemmas buffer_defs =
  NewBuffer_def on_bucket_def Buffer_Open_def Buffer_Close_def Get_def Get_lazy_def
  Buffer_Write_def Buffer_Buckets_def Buffer_Reset_def Buffer_Destroy_def
  Buffer_Writes_def Buffer_Bytes_def Buffer_Size_def Join_def Clean_def Let_def

subsection \<open>The buffered writer\<close>

lemma bufio_Write_fits:
  "werr w = None \<Longrightarrow> length p \<le> Available w \<Longrightarrow>
   bufio_Write p (fs, f, w) = (None, fs, f, w\<lparr>wbuf := wbuf w @ p\<rparr>)"
  by (subst bufio_Write.simps) simp

lemma bufio_Write_err:
  "werr w \<noteq> None \<Longrightarrow> bufio_Write p (fs, f, w) = (werr w, fs, f, w)"
  by (subst bufio_Write.simps) auto

lemma bufio_Write_direct:
  "Available w < length p \<Longrightarrow> werr w = None \<Longrightarrow> Buffered w = 0 \<Longrightarrow>
   File_Write p (fs, f) = ((n, e), fs', f') \<Longrightarrow>
   bufio_Write p (fs, f, w) = bufio_Write (drop n p) (fs', f', w\<lparr>werr := e\<rparr>)"
  by (subst bufio_Write.simps) simp

lemma bufio_Write_fill:
  "Available w < length p \<Longrightarrow> werr w = None \<Longrightarrow> Buffered w \<noteq> 0 \<Longrightarrow>
   bufio_Flush (fs, f, w\<lparr>wbuf := wbuf w @ take (Available w) p\<rparr>) = (e, t') \<Longrightarrow>
   bufio_Write p (fs, f, w) = bufio_Write (drop (Available w) p) t'"
  by (subst bufio_Write.simps) simp

lemma fault_clean:
  "True \<notin> set (faults fs) \<Longrightarrow> fst (fault fs) = False \<and> True \<notin> set (faults (snd (fault fs)))"
  by (cases "faults fs") (auto simp: fault_def)

lemma File_Write_clean:
  assumes "True \<notin> set (faults fs)"
  shows "fst (File_Write d (fs, f)) = (length d, None) \<and>
         True \<notin> set (faults (fst (snd (File_Write d (fs, f)))))"
  using fault_clean [OF assms]
  by (cases "fault fs") (auto simp: File_Write_def)

lemma bufio_Flush_clean:
  assumes "True \<notin> set (faults fs)" "werr w = None"
  shows "fst (bufio_Flush (fs, f, w)) = None \<and>
         True \<notin> set (faults (fst (snd (bufio_Flush (fs, f, w))))) \<and>
         werr (snd (snd (snd (bufio_Flush (fs, f, w))))) = None"
  using File_Write_clean [OF assms(1), of "wbuf w" f] assms
  by (auto simp: bufio_Flush_def Buffered_def split: prod.splits option.splits)

lemma bufio_Write_clean:
  "True \<notin> set (faults (fst s)) \<Longrightarrow> werr (snd (snd s)) = None \<Longrightarrow> fst (bufio_Write p s) = None"
proof (induction p s rule: bufio_Write.induct)
  case (1 p fs f w)
  from "1.prems" have cl: "True \<notin> set (faults fs)" and we: "werr w = None"
    by simp_all
  show ?case
  proof (cases "Available w < length p")
    case False
    with we show ?thesis by (simp add: bufio_Write_fits)
  next
    case big: True
    show ?thesis
    proof (cases "Buffered w = 0")
      case True
      obtain fs' f' where fw: "File_Write p (fs, f) = ((length p, None), fs', f')"
        and cl': "True \<notin> set (faults fs')"
        using File_Write_clean [OF cl, of p f]
        by (cases "File_Write p (fs, f)") auto
      have "fst (bufio_Write (drop (length p) p) (fs', f', w\<lparr>werr := None\<rparr>)) = None"
        by (rule "1.IH"(1) [where x = "(length p, None)" and y = "(fs', f')"])
           (use big we True fw cl' in simp_all)
      with bufio_Write_direct [OF big we True fw] show ?thesis
        by simp
    next
      case False
      let ?w1 = "w\<lparr>wbuf := wbuf w @ take (Available w) p\<rparr>"
      obtain e fs' f' w' where fl: "bufio_Flush (fs, f, ?w1) = (e, fs', f', w')"
        by (cases "bufio_Flush (fs, f, ?w1)") auto
      from bufio_Flush_clean [OF cl, of ?w1 f] we fl
      have ok: "e = None" "True \<notin> set (faults fs')" "werr w' = None"
        by auto
      have "fst (bufio_Write (drop (Available w) p) (fs', f', w')) = None"
        by (rule "1.IH"(2) [where x = e]) (use big we False fl ok in simp_all)
      with bufio_Write_fill [OF big we False fl] show ?thesis
        by simp
    qed
  qed
qed


lemma File_Write_append:
  assumes "snd (fst (File_Write d (fs, f))) = None" "pos f = length (contents fs (ino f))"
  shows "\<exists>fs' f'. File_Write d (fs, f) = ((length d, None), fs', f') \<and>
           contents fs' (ino f) = contents fs (ino f) @ d \<and>
           pos f' = length (contents fs' (ino f)) \<and>
           ino f' = ino f \<and> fname f' = fname f \<and> files fs' = files fs \<and> dirs fs' = dirs fs"
  using assms
  by (cases "fault fs") (auto simp: File_Write_def pwrite_def fault_def split: list.splits if_splits)

lemma bufio_Flush_stored:
  assumes "fst (bufio_Flush t) = None" "appending t"
  shows "appending (snd (bufio_Flush t)) \<and> stored (snd (bufio_Flush t)) = stored t \<and>
         wbuf (snd (snd (snd (bufio_Flush t)))) = [] \<and> same_file t (snd (bufio_Flush t))"
proof (cases t)
  case (fields fs f w)
  show ?thesis
  proof (cases "Buffered w = 0")
    case True
    with assms fields show ?thesis
      by (simp add: bufio_Flush_def appending_def stored_def same_file_def Buffered_def)
  next
    case False
    from assms fields False have "snd (fst (File_Write (wbuf w) (fs, f))) = None"
      by (auto simp: bufio_Flush_def appending_def split: prod.splits option.splits if_splits)
    from File_Write_append [OF this] assms(2) fields
    obtain fs' f' where fw: "File_Write (wbuf w) (fs, f) = ((length (wbuf w), None), fs', f')"
      and c: "contents fs' (ino f) = contents fs (ino f) @ wbuf w"
         "pos f' = length (contents fs' (ino f))"
         "ino f' = ino f" "fname f' = fname f" "files fs' = files fs" "dirs fs' = dirs fs"
      by (auto simp: appending_def)
    from assms fields False fw c show ?thesis
      by (simp add: bufio_Flush_def appending_def stored_def same_file_def Buffered_def)
  qed
qed

lemma same_file_trans: "same_file t t' \<Longrightarrow> same_file t' t'' \<Longrightarrow> same_file t t''"
  by (cases t; cases t'; cases t'') (simp add: same_file_def)

lemma bufio_Write_stored:
  "fst (bufio_Write p t) = None \<Longrightarrow> appending t \<Longrightarrow>
   appending (snd (bufio_Write p t)) \<and> stored (snd (bufio_Write p t)) = stored t @ p \<and>
   same_file t (snd (bufio_Write p t))"
proof (induction p t rule: bufio_Write.induct)
  case (1 p fs f w)
  from "1.prems" have we: "werr w = None" and at: "pos f = length (contents fs (ino f))"
    by (simp_all add: appending_def)
  show ?case
  proof (cases "Available w < length p")
    case False
    with we at show ?thesis
      by (simp add: bufio_Write_fits appending_def stored_def same_file_def)
  next
    case big: True
    show ?thesis
    proof (cases "Buffered w = 0")
      case True
      obtain n e fs' f' where fw: "File_Write p (fs, f) = ((n, e), fs', f')"
        by (cases "File_Write p (fs, f)") auto
      from bufio_Write_direct [OF big we True fw]
      have eq: "bufio_Write p (fs, f, w) = bufio_Write (drop n p) (fs', f', w\<lparr>werr := e\<rparr>)" .
      have "e = None"
      proof (rule ccontr)
        assume "e \<noteq> None"
        then have "fst (bufio_Write (drop n p) (fs', f', w\<lparr>werr := e\<rparr>)) = e"
          by (simp add: bufio_Write_err)
        with eq "1.prems"(1) \<open>e \<noteq> None\<close> show False by simp
      qed
      with fw have "snd (fst (File_Write p (fs, f))) = None" by simp
      from File_Write_append [OF this at] fw
      have c: "n = length p" "contents fs' (ino f) = contents fs (ino f) @ p"
         "pos f' = length (contents fs' (ino f))"
         "ino f' = ino f" "fname f' = fname f" "files fs' = files fs" "dirs fs' = dirs fs"
        by auto
      from c we \<open>e = None\<close> True eq show ?thesis
        by (simp add: bufio_Write_fits appending_def stored_def same_file_def Buffered_def)
    next
      case False
      let ?t1 = "(fs, f, w\<lparr>wbuf := wbuf w @ take (Available w) p\<rparr>)"
      obtain e t' where fl: "bufio_Flush ?t1 = (e, t')"
        by (cases "bufio_Flush ?t1") auto
      from bufio_Write_fill [OF big we False fl]
      have eq: "bufio_Write p (fs, f, w) = bufio_Write (drop (Available w) p) t'" .
      have a1: "appending ?t1"
        using we at by (simp add: appending_def)
      have "e = None"
      proof (rule ccontr)
        assume ne: "e \<noteq> None"
        with fl have "werr (snd (snd t')) = e"
          by (auto simp: bufio_Flush_def split: prod.splits option.splits if_splits)
        with ne have "fst (bufio_Write (drop (Available w) p) t') = e"
          by (cases t') (simp add: bufio_Write_err)
        with eq "1.prems"(1) ne show False by simp
      qed
      with fl have "fst (bufio_Flush ?t1) = None" by simp
      from bufio_Flush_stored [OF this a1] fl
      have f1: "appending t'" "stored t' = stored ?t1" "same_file ?t1 t'"
        by simp_all
      have ih: "appending (snd (bufio_Write (drop (Available w) p) t')) \<and>
                stored (snd (bufio_Write (drop (Available w) p) t')) = stored t' @ drop (Available w) p \<and>
                same_file t' (snd (bufio_Write (drop (Available w) p) t'))"
        by (rule "1.IH"(2) [where x = e]) (use big we False fl f1 eq "1.prems" in simp_all)
      have "same_file (fs, f, w) ?t1"
        by (simp add: same_file_def)
      with f1 ih have "same_file (fs, f, w) (snd (bufio_Write (drop (Available w) p) t'))"
        by (blast intro: same_file_trans)
      moreover have "stored ?t1 @ drop (Available w) p = stored (fs, f, w) @ p"
        by (simp add: stored_def)
      ultimately show ?thesis
        using ih f1 eq by simp
    qed
  qed
qed


lemma Open_writing:
  "fst (Bucket_Open s) = None \<Longrightarrow> writing [] (snd (Bucket_Open s))"
  by (cases s)
     (auto simp: Bucket_Open_def create_def Fs_Create_def fault_def writing_def appending_def
                 stored_def NewWriter_def
           split: if_splits prod.splits sum.splits option.splits list.splits)

lemma Write_writing:
  assumes "writing X s" "fst (Bucket_Write d s) = None"
  shows "writing (X @ d) (snd (Bucket_Write d s))"
proof -
  obtain fs b where s: "s = (fs, b)" by (cases s)
  from assms(1) s obtain f w where fw: "file b = Some f" "writer b = Some w"
    and op: "open b" and ap: "appending (fs, f, w)" and st: "stored (fs, f, w) = X"
    and nm: "fname f = path b" "files fs (Clean (path b)) = Some (ino f)"
    by (auto simp: writing_def split: option.splits)
  obtain e fs' f' w' where bw: "bufio_Write d (fs, f, w) = (e, fs', f', w')"
    by (cases "bufio_Write d (fs, f, w)") auto
  with assms(2) s fw op have "e = None"
    by (auto simp: Bucket_Write_def on_writer_def split: option.splits)
  with bw have "fst (bufio_Write d (fs, f, w)) = None" by simp
  from bufio_Write_stored [OF this ap] bw st
  have "appending (fs', f', w')" "stored (fs', f', w') = X @ d" "same_file (fs, f, w) (fs', f', w')"
    by simp_all
  with s fw op nm bw \<open>e = None\<close> show ?thesis
    by (simp add: Bucket_Write_def on_writer_def writing_def same_file_def)
qed

lemma Write_all_writing:
  "writing X s \<Longrightarrow> fst (Write_all ds s) = None \<Longrightarrow> writing (X @ concat ds) (snd (Write_all ds s))"
proof (induction ds arbitrary: X s)
  case Nil
  then show ?case by simp
next
  case (Cons d ds)
  obtain e s' where w: "Bucket_Write d s = (e, s')" by (cases "Bucket_Write d s")
  with Cons.prems(2) have e: "e = None" by (cases e) simp_all
  with w Cons.prems(1) have "writing (X @ d) s'"
    using Write_writing [of X s d] by simp
  moreover from Cons.prems(2) w e have "fst (Write_all ds s') = None" by simp
  ultimately have "writing ((X @ d) @ concat ds) (snd (Write_all ds s'))"
    by (rule Cons.IH)
  with w e show ?case by simp
qed

lemma Close_readable:
  assumes "writing X s" "fst (Bucket_Close s) = None"
  shows "readable X 0 (snd (Bucket_Close s)) \<and>
         (\<exists>i. files (fst (snd (Bucket_Close s))) (Clean (path (snd s))) = Some i \<and>
              contents (fst (snd (Bucket_Close s))) i = X)"
proof -
  obtain fs b where s: "s = (fs, b)" by (cases s)
  from assms(1) s obtain f w where fw: "file b = Some f" "writer b = Some w"
    and ap: "appending (fs, f, w)" and st: "stored (fs, f, w) = X"
    and nm: "fname f = path b" "files fs (Clean (path b)) = Some (ino f)"
    by (auto simp: writing_def split: option.splits)
  obtain e fs' f' w' where fl: "bufio_Flush (fs, f, w) = (e, fs', f', w')"
    by (cases "bufio_Flush (fs, f, w)") auto
  with assms(2) s fw have "e = None"
    by (auto simp: Bucket_Close_def flush_def on_writer_def split: option.splits prod.splits)
  with fl have "fst (bufio_Flush (fs, f, w)) = None" by simp
  from bufio_Flush_stored [OF this ap] fl st
  have r: "appending (fs', f', w')" "stored (fs', f', w') = X" "wbuf w' = []"
    "same_file (fs, f, w) (fs', f', w')"
    by simp_all
  with s fw fl \<open>e = None\<close> assms(2) nm show ?thesis
    by (auto simp: Bucket_Close_def flush_def on_writer_def readable_def File_Seek0_def
                   fault_def stored_def same_file_def
             split: option.splits prod.splits list.splits if_splits)
qed

lemma Bucket_Read_cases:
  assumes "readable X n s" "0 < k"
  shows "(\<exists>s'. Bucket_Read k s = (([], Some ErrIO), s') \<and> True \<in> set (faults (fst s))) \<or>
         (\<exists>s'. Bucket_Read k s = (([], Some EOF), s') \<and> length X \<le> n) \<or>
         (\<exists>s'. Bucket_Read k s = ((take k (drop n X), None), s') \<and> n < length X \<and>
               readable X (n + length (take k (drop n X))) s' \<and>
               (True \<notin> set (faults (fst s)) \<longrightarrow> True \<notin> set (faults (fst s'))))"
proof -
  obtain fs b where s: "s = (fs, b)" by (cases s)
  from assms(1) s obtain f where f: "file b = Some f" "\<not> open b" "pos f = n"
    "contents fs (ino f) = X"
    by (auto simp: readable_def split: option.splits)
  obtain bad fs1 where fa: "fault fs = (bad, fs1)" by (cases "fault fs")
  then have fs1: "contents fs1 = contents fs" "bad \<longrightarrow> True \<in> set (faults fs)"
    "True \<notin> set (faults fs) \<longrightarrow> True \<notin> set (faults fs1)"
    by (auto simp: fault_def split: list.splits)
  show ?thesis
  proof (cases bad)
    case True
    with s f fa fs1 have "Bucket_Read k s = (([], Some ErrIO), fs1, b\<lparr>file := Some f\<rparr>)"
      by (simp add: Bucket_Read_def File_Read_def)
    with True fs1 s show ?thesis by simp
  next
    case False
    show ?thesis
    proof (cases "length X \<le> n")
      case True
      with s f fa fs1 False assms(2)
      have "Bucket_Read k s = (([], Some EOF), fs1, b\<lparr>file := Some f\<rparr>)"
        by (simp add: Bucket_Read_def File_Read_def)
      with True show ?thesis by simp
    next
      case nle: False
      let ?d = "take k (drop n X)"
      let ?s' = "(fs1, b\<lparr>file := Some (f\<lparr>pos := n + length ?d\<rparr>)\<rparr>)"
      from s f fa fs1 False assms(2) nle
      have "Bucket_Read k s = ((?d, None), ?s')"
        by (simp add: Bucket_Read_def File_Read_def Let_def)
      moreover have "readable X (n + length ?d) ?s'"
        using f fs1 by (simp add: readable_def)
      ultimately show ?thesis
        using nle fs1 s by simp
    qed
  qed
qed

lemma ReadAll_EOF:
  "k \<noteq> 0 \<Longrightarrow> Bucket_Read k s = ((d, Some e), s') \<Longrightarrow>
   ReadAll k s = ((d, if e = EOF then None else Some e), s')"
  by (subst ReadAll.simps) simp

lemma ReadAll_more:
  "k \<noteq> 0 \<Longrightarrow> Bucket_Read k s = ((d, None), s') \<Longrightarrow>
   ReadAll k s = ((d @ fst (fst (ReadAll k s')), snd (fst (ReadAll k s'))), snd (ReadAll k s'))"
  by (subst ReadAll.simps) (simp split: prod.splits)

lemma ReadAll_readable:
  "readable X n s \<Longrightarrow> 0 < k \<Longrightarrow>
   (snd (fst (ReadAll k s)) = None \<longrightarrow> fst (fst (ReadAll k s)) = drop n X) \<and>
   (True \<notin> set (faults (fst s)) \<longrightarrow> fst (ReadAll k s) = (drop n X, None))"
proof (induction k s arbitrary: n rule: ReadAll.induct)
  case (1 k s)
  from "1.prems" have k: "k \<noteq> 0" by simp
  from Bucket_Read_cases [OF "1.prems"]
  consider (io) s' where "Bucket_Read k s = (([], Some ErrIO), s')" "True \<in> set (faults (fst s))"
    | (eof) s' where "Bucket_Read k s = (([], Some EOF), s')" "length X \<le> n"
    | (more) s' where "Bucket_Read k s = ((take k (drop n X), None), s')" "n < length X"
        "readable X (n + length (take k (drop n X))) s'"
        "True \<notin> set (faults (fst s)) \<longrightarrow> True \<notin> set (faults (fst s'))"
    by blast
  then show ?case
  proof cases
    case io
    with ReadAll_EOF [OF k io(1)] show ?thesis by simp
  next
    case eof
    with ReadAll_EOF [OF k eof(1)] show ?thesis by simp
  next
    case more
    let ?d = "take k (drop n X)"
    have ih: "(snd (fst (ReadAll k s')) = None \<longrightarrow> fst (fst (ReadAll k s')) = drop (n + length ?d) X) \<and>
          (True \<notin> set (faults (fst s')) \<longrightarrow> fst (ReadAll k s') = (drop (n + length ?d) X, None))"
      by (rule "1.IH" [where x = "(?d, None)" and xa = ?d and ya = None])
         (use k more "1.prems" in simp_all)
    have "drop (n + length ?d) X = drop (length ?d) (drop n X)"
      by (simp only: drop_drop add.commute)
    also have "\<dots> = drop k (drop n X)"
      by (cases "k \<le> length (drop n X)") (simp_all add: min_def)
    finally have split: "?d @ drop (n + length ?d) X = drop n X"
      by (simp only: append_take_drop_id)
    from ReadAll_more [OF k more(1)] ih more(4) split show ?thesis
      by (auto simp: prod_eq_iff)
  qed
qed

subsection \<open>Round trip\<close>

lemma Open_path: "path (snd (snd (Bucket_Open s))) = path (snd s)"
  by (cases s)
     (auto simp: Bucket_Open_def create_def split: prod.splits sum.splits option.splits)

lemma on_writer_frame:
  "path (snd (snd (on_writer m s))) = path (snd s) \<and>
   open (snd (snd (on_writer m s))) = open (snd s) \<and>
   writes (snd (snd (on_writer m s))) = writes (snd s) \<and>
   bytes (snd (snd (on_writer m s))) = bytes (snd s)"
  by (cases s) (auto simp: on_writer_def split: option.splits prod.splits)

lemma Write_path: "path (snd (snd (Bucket_Write d s))) = path (snd s)"
  using on_writer_frame [of "bufio_Write d" s]
  by (cases s) (auto simp: Bucket_Write_def split: option.splits prod.splits)

lemma Write_all_path: "path (snd (snd (Write_all ds s))) = path (snd s)"
proof (induction ds arbitrary: s)
  case Nil
  show ?case by simp
next
  case (Cons d ds)
  show ?case
    using Cons.IH [of "snd (Bucket_Write d s)"] Write_path [of d s]
    by (cases "Bucket_Write d s") (auto split: option.splits)
qed

text \<open>
  Claim C1. Open a bucket, write the payloads \<open>ds\<close> (one or many, empty or longer
  than the writer's buffer), close it. If these calls all return nil, the file at the
  bucket's path holds exactly the concatenation of the payloads in the order written,
  with nothing added; reading the bucket to exhaustion with \<open>Bucket.Read\<close> (any buffer
  size \<open>k > 0\<close>) returns exactly these bytes whenever it ends without error, and it
  does end without error when the storage does not fail during the reads.
\<close>

theorem roundtrip:
  assumes "fst (Open_Write_Close ds s) = None" and "0 < k"
  shows "(snd (fst (ReadAll k (snd (Open_Write_Close ds s)))) = None \<longrightarrow>
            fst (fst (ReadAll k (snd (Open_Write_Close ds s)))) = concat ds) \<and>
         (True \<notin> set (faults (fst (snd (Open_Write_Close ds s)))) \<longrightarrow>
            fst (ReadAll k (snd (Open_Write_Close ds s))) = (concat ds, None)) \<and>
         (\<exists>i. files (fst (snd (Open_Write_Close ds s))) (Clean (path (snd s))) = Some i \<and>
              contents (fst (snd (Open_Write_Close ds s))) i = concat ds)"
proof -
  obtain e1 s1 where o: "Bucket_Open s = (e1, s1)" by (cases "Bucket_Open s")
  obtain e2 s2 where w: "Write_all ds s1 = (e2, s2)" by (cases "Write_all ds s1")
  from assms(1) o have e1: "e1 = None"
    by (cases e1) (simp_all add: Open_Write_Close_def)
  from assms(1) o w e1 have e2: "e2 = None"
    by (cases e2) (simp_all add: Open_Write_Close_def)
  from o w e1 e2 have owc: "Open_Write_Close ds s = Bucket_Close s2"
    by (simp add: Open_Write_Close_def)
  from o e1 have "writing [] s1"
    using Open_writing [of s] by simp
  with w e2 have w2: "writing (concat ds) s2"
    using Write_all_writing [of "[]" s1 ds] by simp
  from assms(1) owc have c: "fst (Bucket_Close s2) = None" by simp
  have p: "path (snd s2) = path (snd s)"
    using Open_path [of s] Write_all_path [of ds s1] o w by simp
  from Close_readable [OF w2 c] p owc
  have r: "readable (concat ds) 0 (snd (Open_Write_Close ds s))"
    and f: "\<exists>i. files (fst (snd (Open_Write_Close ds s))) (Clean (path (snd s))) = Some i \<and>
              contents (fst (snd (Open_Write_Close ds s))) i = concat ds"
    by simp_all
  from ReadAll_readable [OF r assms(2)] f show ?thesis
    by simp
qed

theorem roundtrip_witness:
  "fst (Open_Write_Close [[1, 2, 3], [], replicate 5000 7] (NewMemMapFs, NewBucket ''./test/a'')) = None \<and>
   (0::nat) < 512 \<and>
   True \<notin> set (faults (fst (snd (Open_Write_Close [[1, 2, 3], [], replicate 5000 7]
                                   (NewMemMapFs, NewBucket ''./test/a''))))) \<and>
   fst (ReadAll 512 (snd (Open_Write_Close [[1, 2, 3], [], replicate 5000 7]
                           (NewMemMapFs, NewBucket ''./test/a''))))
     = ([1, 2, 3] @ replicate 5000 7, None)"
proof -
  let ?ds = "[[1, 2, 3], [], replicate 5000 (7::byte)]"
  let ?s = "(NewMemMapFs, NewBucket ''./test/a'')"
  have h: "fst (Open_Write_Close ?ds ?s) = None"
    by (simp add: Open_Write_Close_def fs_defs bufio_defs bucket_defs)
  have c: "True \<notin> set (faults (fst (snd (Open_Write_Close ?ds ?s))))"
    by (simp add: Open_Write_Close_def fs_defs bufio_defs bucket_defs)
  have k: "(0::nat) < 512" by simp
  from roundtrip [OF h k] c h show ?thesis
    by simp
qed

subsection \<open>The counters\<close>

lemma exec_counters:
  assumes "c \<noteq> Call_Destroy"
  shows "writes (snd (snd (bucket_exec c s))) =
           writes (snd s) + (case c of Call_Write d \<Rightarrow> if fst (bucket_exec c s) = None then 1 else 0 | _ \<Rightarrow> 0) \<and>
         bytes (snd (snd (bucket_exec c s))) =
           bytes (snd s) + (case c of Call_Write d \<Rightarrow> if fst (bucket_exec c s) = None then of_nat (length d) else 0 | _ \<Rightarrow> 0)"
proof (cases c)
  case Call_Open
  then show ?thesis
    by (cases s)
       (auto simp: Bucket_Open_def create_def split: prod.splits sum.splits option.splits)
next
  case Call_Close
  then show ?thesis
    using on_writer_frame [of bufio_Flush s]
    by (cases s)
       (auto simp: Bucket_Close_def flush_def split: prod.splits option.splits)
next
  case Call_Destroy
  with assms show ?thesis by simp
next
  case Call_Flush
  then show ?thesis
    using on_writer_frame [of bufio_Flush s]
    by (simp add: Bucket_Flush_def flush_def)
next
  case (Call_Write d)
  then show ?thesis
    using on_writer_frame [of "bufio_Write d" s]
    by (cases s) (auto simp: Bucket_Write_def split: prod.splits option.splits)
next
  case (Call_Read k)
  then show ?thesis
    by (cases s)
       (auto simp: Bucket_Read_def split: prod.splits option.splits)
qed

lemma run_counters:
  "Call_Destroy \<notin> set cs \<Longrightarrow>
   writes (snd (bucket_run cs s)) = writes (snd s) + of_nat (length (accepted cs s)) \<and>
   bytes (snd (bucket_run cs s)) = bytes (snd s) + of_nat (sum_list (map length (accepted cs s)))"
proof (induction cs arbitrary: s)
  case Nil
  show ?case by simp
next
  case (Cons c cs)
  from Cons.prems have c: "c \<noteq> Call_Destroy" and cs: "Call_Destroy \<notin> set cs"
    by auto
  from Cons.IH [OF cs, of "snd (bucket_exec c s)"] exec_counters [OF c, of s]
  show ?case
    by (cases c) (simp_all add: algebra_simps)
qed

text \<open>
  Claim C2. Take any sequence of calls on a bucket with no \<open>Destroy\<close> among them.
  Afterwards \<open>Writes()\<close> has grown by the number of \<open>Write\<close> calls that returned nil
  and \<open>Bytes()\<close> by the sum of the lengths of their payloads. On a bucket whose
  counters were 0 (a new bucket) they are therefore \<open>n\<close> and
  \<open>len(d1) + ... + len(dn)\<close>: as \<open>uint\<close> and \<open>uint64\<close> values, and as numbers as
  long as these stay below \<open>2 ^ 64\<close>.
\<close>

theorem counters_count_writes:
  assumes "Call_Destroy \<notin> set cs"
  shows "Bucket_Writes (snd (bucket_run cs s))
           = Bucket_Writes (snd s) + of_nat (length (accepted cs s)) \<and>
         Bucket_Bytes (snd (bucket_run cs s))
           = Bucket_Bytes (snd s) + of_nat (sum_list (map length (accepted cs s))) \<and>
         (Bucket_Writes (snd s) = 0 \<and> length (accepted cs s) < 2 ^ 64 \<longrightarrow>
            unat (Bucket_Writes (snd (bucket_run cs s))) = length (accepted cs s)) \<and>
         (Bucket_Bytes (snd s) = 0 \<and> sum_list (map length (accepted cs s)) < 2 ^ 64 \<longrightarrow>
            unat (Bucket_Bytes (snd (bucket_run cs s))) = sum_list (map length (accepted cs s)))"
  using run_counters [OF assms, of s]
  by (simp add: Bucket_Writes_def Bucket_Bytes_def unat_of_nat)

theorem counters_count_writes_witness:
  "Call_Destroy \<notin> set [Call_Open, Call_Write [1, 2, 3], Call_Write [4], Call_Close,
                         Call_Write [5], Call_Read 2] \<and>
   accepted [Call_Open, Call_Write [1, 2, 3], Call_Write [4], Call_Close, Call_Write [5], Call_Read 2]
      (NewMemMapFs, NewBucket ''./test/a'') = [[1, 2, 3], [4]] \<and>
   Bucket_Writes (snd (NewMemMapFs, NewBucket ''./test/a'')) = 0 \<and>
   Bucket_Bytes (snd (NewMemMapFs, NewBucket ''./test/a'')) = 0 \<and>
   unat (Bucket_Writes (snd (bucket_run [Call_Open, Call_Write [1, 2, 3], Call_Write [4], Call_Close,
                                          Call_Write [5], Call_Read 2]
                             (NewMemMapFs, NewBucket ''./test/a'')))) = 2 \<and>
   unat (Bucket_Bytes (snd (bucket_run [Call_Open, Call_Write [1, 2, 3], Call_Write [4], Call_Close,
                                         Call_Write [5], Call_Read 2]
                             (NewMemMapFs, NewBucket ''./test/a'')))) = 4"
proof -
  let ?cs = "[Call_Open, Call_Write [1, 2, 3], Call_Write [4], Call_Close, Call_Write [5], Call_Read 2]"
  let ?s = "(NewMemMapFs, NewBucket ''./test/a'')"
  have n: "Call_Destroy \<notin> set ?cs" by simp
  have a: "accepted ?cs ?s = [[1, 2, 3], [4]]"
    by (simp add: fs_defs bufio_defs bucket_defs)
  have z: "Bucket_Writes (snd ?s) = 0" "Bucket_Bytes (snd ?s) = 0"
    by (simp_all add: bucket_defs)
  from counters_count_writes [OF n, of ?s] a z n show ?thesis
    by (simp add: fs_defs bufio_defs bucket_defs)
qed

subsection \<open>The open flag gates writes\<close>

lemma Write_rejected: "\<not> open (snd s) \<Longrightarrow> Bucket_Write d s = (Some ErrNotOpen, s)"
  by (cases s) (simp add: Bucket_Write_def)

lemma Write_ok_open: "fst (Bucket_Write d s) = None \<Longrightarrow> open (snd s)"
  by (cases s) (auto simp: Bucket_Write_def split: if_splits)

lemma Close_ok_not_open:
  "fst (Bucket_Close s) = None \<Longrightarrow> \<not> open (snd (snd (Bucket_Close s)))"
  by (cases s) (auto simp: Bucket_Close_def split: option.splits prod.splits)

lemma exec_not_open:
  assumes "\<not> open (snd s)" and "c \<noteq> Call_Open"
  shows "\<not> open (snd (snd (bucket_exec c s)))"
  using assms
  by (cases c; cases s)
     (auto simp: Bucket_Close_def Bucket_Destroy_def Bucket_Flush_def flush_def on_writer_def
                 Bucket_Write_def Bucket_Read_def File_Seek0_def File_Read_def
           split: option.splits prod.splits if_splits)

lemma run_not_open:
  "\<not> open (snd s) \<Longrightarrow> Call_Open \<notin> set cs \<Longrightarrow> \<not> open (snd (bucket_run cs s))"
proof (induction cs arbitrary: s)
  case Nil
  then show ?case by simp
next
  case (Cons c cs)
  from Cons.prems have "\<not> open (snd (snd (bucket_exec c s)))"
    by (intro exec_not_open) auto
  with Cons show ?case by simp
qed

text \<open>
  Claim C3. \<open>Bucket.Write\<close> returns nil only on a bucket whose \<open>open\<close> flag is set.
  On a bucket that was never opened, and on a bucket after a successful \<open>Close\<close>, it
  returns the "not accepting writes" error, and it keeps doing so whatever other calls
  are made in between, as long as none of them is \<open>Open\<close>. A rejected write leaves the
  whole state as it was, the two counters included.
\<close>

theorem Write_needs_open:
  "(fst (Bucket_Write d s) = None \<longrightarrow> open (snd s)) \<and>
   (Call_Open \<notin> set cs \<longrightarrow>
      Bucket_Write d (bucket_run cs (fs, NewBucket p))
        = (Some ErrNotOpen, bucket_run cs (fs, NewBucket p))) \<and>
   (fst (Bucket_Close s) = None \<and> Call_Open \<notin> set cs \<longrightarrow>
      Bucket_Write d (bucket_run cs (snd (Bucket_Close s)))
        = (Some ErrNotOpen, bucket_run cs (snd (Bucket_Close s))))"
proof (intro conjI impI)
  assume "fst (Bucket_Write d s) = None"
  then show "open (snd s)"
    by (rule Write_ok_open)
next
  assume "Call_Open \<notin> set cs"
  then have "\<not> open (snd (bucket_run cs (fs, NewBucket p)))"
    by (intro run_not_open) (simp_all add: NewBucket_def)
  then show "Bucket_Write d (bucket_run cs (fs, NewBucket p))
        = (Some ErrNotOpen, bucket_run cs (fs, NewBucket p))"
    by (rule Write_rejected)
next
  assume "fst (Bucket_Close s) = None \<and> Call_Open \<notin> set cs"
  then have "\<not> open (snd (bucket_run cs (snd (Bucket_Close s))))"
    by (intro run_not_open Close_ok_not_open) simp_all
  then show "Bucket_Write d (bucket_run cs (snd (Bucket_Close s)))
        = (Some ErrNotOpen, bucket_run cs (snd (Bucket_Close s)))"
    by (rule Write_rejected)
qed

theorem Write_needs_open_witness:
  "fst (Bucket_Write [1, 2] (snd (Bucket_Open (NewMemMapFs, NewBucket ''a'')))) = None \<and>
   open (snd (snd (Bucket_Open (NewMemMapFs, NewBucket ''a'')))) \<and>
   Call_Open \<notin> set [Call_Flush, Call_Read 4, Call_Destroy] \<and>
   fst (Bucket_Write [1, 2]
          (bucket_run [Call_Flush, Call_Read 4, Call_Destroy] (NewMemMapFs, NewBucket ''a'')))
      = Some ErrNotOpen \<and>
   fst (Bucket_Close (snd (Bucket_Open (NewMemMapFs, NewBucket ''a'')))) = None \<and>
   fst (Bucket_Write [1, 2]
          (bucket_run [Call_Flush, Call_Read 4, Call_Destroy]
             (snd (Bucket_Close (snd (Bucket_Open (NewMemMapFs, NewBucket ''a'')))))))
      = Some ErrNotOpen"
proof -
  let ?s = "snd (Bucket_Open (NewMemMapFs, NewBucket ''a''))"
  let ?cs = "[Call_Flush, Call_Read 4, Call_Destroy]"
  have w: "fst (Bucket_Write [1, 2] ?s) = None"
    by (simp add: fs_defs bufio_defs bucket_defs)
  have c: "fst (Bucket_Close ?s) = None"
    by (simp add: fs_defs bufio_defs bucket_defs)
  have n: "Call_Open \<notin> set ?cs"
    by simp
  from Write_needs_open [of "[1, 2]" ?s ?cs NewMemMapFs "''a''"] w c n
  show ?thesis by simp
qed

subsection \<open>Destroy\<close>

lemma Destroy_ok:
  assumes "fst (Bucket_Destroy (fs, b)) = None"
  shows "\<exists>f fs'. file b = Some f \<and> Bucket_Destroy (fs, b) = (None, fs', b\<lparr>writes := 0, bytes := 0\<rparr>) \<and>
           files fs' (Clean (fname f)) = None \<and> dirs fs' = dirs fs \<and>
           (\<forall>q. files fs' q \<noteq> None \<longrightarrow> files fs q \<noteq> None) \<and>
           (True \<notin> set (faults fs) \<longrightarrow> True \<notin> set (faults fs'))"
  using assms
  by (cases "fault fs")
     (auto simp: Bucket_Destroy_def Fs_Remove_def fault_def
           split: option.splits prod.splits if_splits list.splits)

text \<open>
  Claim C4. \<open>Bucket.Destroy\<close> is claimed safe in every state of the bucket. On a
  bucket that was never opened \<open>b.file\<close> is nil and \<open>b.file.Name()\<close> panics: the
  call faults, and neither removes a file nor touches the counters.
\<close>

theorem Destroy_unopened_panics:
  "Bucket_Destroy (NewMemMapFs, NewBucket ''./test/a'')
     = (Some PanicNil, NewMemMapFs, NewBucket ''./test/a'')"
  by (simp add: Bucket_Destroy_def NewBucket_def)

text \<open>
  Claim C9. A \<open>Destroy\<close> that returns nil has removed the file's directory entry and
  set \<open>writes\<close> and \<open>bytes\<close> to 0, and has changed nothing else of the bucket: the
  \<open>open\<close> flag, \<open>file\<close> and \<open>writer\<close> are as before. A bucket that was open is
  still open, and a following \<open>Write\<close> is accepted: a payload that fits the buffer is
  appended to it (the counters restart at 1 and \<open>len(data)\<close>), and any payload is
  written without error when the storage does not fail, through the handle of the
  removed file.
\<close>

theorem Destroy_keeps_open:
  assumes "fst (Bucket_Destroy (fs, b)) = None"
  shows "snd (snd (Bucket_Destroy (fs, b))) = b\<lparr>writes := 0, bytes := 0\<rparr> \<and>
         open (snd (snd (Bucket_Destroy (fs, b)))) = open b \<and>
         file (snd (snd (Bucket_Destroy (fs, b)))) = file b \<and>
         writer (snd (snd (Bucket_Destroy (fs, b)))) = writer b \<and>
         (\<exists>f. file b = Some f \<and> files (fst (snd (Bucket_Destroy (fs, b)))) (Clean (fname f)) = None) \<and>
         (open b \<and> writer b = Some w \<and> werr w = None \<and> length d \<le> Available w \<longrightarrow>
            Bucket_Write d (snd (Bucket_Destroy (fs, b)))
              = (None, fst (snd (Bucket_Destroy (fs, b))),
                 b\<lparr>writer := Some (w\<lparr>wbuf := wbuf w @ d\<rparr>), writes := 1, bytes := of_nat (length d)\<rparr>)) \<and>
         (open b \<and> writer b = Some w \<and> werr w = None \<and> True \<notin> set (faults fs) \<longrightarrow>
            fst (Bucket_Write d (snd (Bucket_Destroy (fs, b)))) = None)"
proof -
  from Destroy_ok [OF assms] obtain f fs' where f: "file b = Some f"
    and d: "Bucket_Destroy (fs, b) = (None, fs', b\<lparr>writes := 0, bytes := 0\<rparr>)"
    and rm: "files fs' (Clean (fname f)) = None"
    and cl: "True \<notin> set (faults fs) \<longrightarrow> True \<notin> set (faults fs')"
    by blast
  have fits: "Bucket_Write d (fs', b\<lparr>writes := 0, bytes := 0\<rparr>)
      = (None, fs', b\<lparr>writer := Some (w\<lparr>wbuf := wbuf w @ d\<rparr>), writes := 1, bytes := of_nat (length d)\<rparr>)"
    if "open b" "writer b = Some w" "werr w = None" "length d \<le> Available w"
    using that f by (simp add: Bucket_Write_def on_writer_def bufio_Write_fits)
  have ok: "fst (Bucket_Write d (fs', b\<lparr>writes := 0, bytes := 0\<rparr>)) = None"
    if "open b" "writer b = Some w" "werr w = None" "True \<notin> set (faults fs)"
  proof -
    from that cl have "fst (bufio_Write d (fs', f, w)) = None"
      by (intro bufio_Write_clean) simp_all
    with that f show ?thesis
      by (cases "bufio_Write d (fs', f, w)")
         (auto simp: Bucket_Write_def on_writer_def)
  qed
  from d f rm fits ok show ?thesis
    by simp
qed

theorem Destroy_keeps_open_witness:
  "fst (Bucket_Destroy (snd (Bucket_Write [1, 2, 3] (snd (Bucket_Open (NewMemMapFs, NewBucket ''./test/a'')))))) = None \<and>
   open (snd (snd (Bucket_Write [1, 2, 3] (snd (Bucket_Open (NewMemMapFs, NewBucket ''./test/a'')))))) \<and>
   open (snd (snd (Bucket_Destroy (snd (Bucket_Write [1, 2, 3] (snd (Bucket_Open (NewMemMapFs, NewBucket ''./test/a'')))))))) \<and>
   files (fst (snd (Bucket_Destroy (snd (Bucket_Write [1, 2, 3] (snd (Bucket_Open (NewMemMapFs, NewBucket ''./test/a''))))))))
         (Clean ''./test/a'') = None \<and>
   fst (Bucket_Write [4, 5]
          (snd (Bucket_Destroy (snd (Bucket_Write [1, 2, 3] (snd (Bucket_Open (NewMemMapFs, NewBucket ''./test/a'')))))))) = None \<and>
   Bucket_Writes (snd (snd (Bucket_Write [4, 5]
          (snd (Bucket_Destroy (snd (Bucket_Write [1, 2, 3] (snd (Bucket_Open (NewMemMapFs, NewBucket ''./test/a'')))))))))) = 1"
proof -
  let ?s = "snd (Bucket_Write [1, 2, 3] (snd (Bucket_Open (NewMemMapFs, NewBucket ''./test/a''))))"
  let ?w = "\<lparr>wbuf = [1, 2, 3], werr = None\<rparr> :: Writer"
  have s: "?s = (fst ?s, snd ?s)" by simp
  have h: "fst (Bucket_Destroy (fst ?s, snd ?s)) = None"
    by (simp add: fs_defs bufio_defs bucket_defs)
  have p: "open (snd ?s)" "writer (snd ?s) = Some ?w" "werr ?w = None"
    "length [4, 5 :: byte] \<le> Available ?w" "True \<notin> set (faults (fst ?s))"
    by (simp_all add: fs_defs bufio_defs bucket_defs)
  from Destroy_keeps_open [OF h, of ?w "[4, 5]"] p h show ?thesis
    by (simp add: fs_defs bufio_defs bucket_defs)
qed

subsection \<open>Aggregates\<close>

lemma Writes_range_sum:
  "Writes_range ks w c =
     c + sum_list (map (\<lambda>k. case buckets (buffer w) k of None \<Rightarrow> 0
                            | Some a \<Rightarrow> Bucket_Writes (heap w a)) ks)"
  by (induction ks arbitrary: c) (auto split: option.splits simp: add.assoc)

lemma Bytes_range_sum:
  "Bytes_range ks w c =
     c + sum_list (map (\<lambda>k. case buckets (buffer w) k of None \<Rightarrow> 0
                            | Some a \<Rightarrow> Bucket_Bytes (heap w a)) ks)"
  by (induction ks arbitrary: c) (auto split: option.splits simp: add.assoc)

lemma sum_list_tracked:
  assumes "distinct ks" "set ks = dom m"
  shows "sum_list (map (\<lambda>k. case m k of None \<Rightarrow> 0 | Some a \<Rightarrow> g a) ks)
           = (\<Sum>k\<in>dom m. g (the (m k)))"
proof -
  have "sum_list (map (\<lambda>k. case m k of None \<Rightarrow> 0 | Some a \<Rightarrow> g a) ks)
          = (\<Sum>k\<in>set ks. case m k of None \<Rightarrow> 0 | Some a \<Rightarrow> g a)"
    using assms(1) by (simp add: sum.distinct_set_conv_list)
  also have "\<dots> = (\<Sum>k\<in>dom m. g (the (m k)))"
    unfolding assms(2) by (rule sum.cong) auto
  finally show ?thesis .
qed

text \<open>
  Claim C6. A \<open>Buffer\<close> stores no counter of its own: \<open>Buffer.Writes()\<close> and
  \<open>Buffer.Bytes()\<close> are computed from the buckets in the map when they are called.
  In every state of the buffer, and whatever the order in which the map is visited, they
  are the sums (in \<open>uint\<close> and \<open>uint64\<close> arithmetic, as in the code) of
  \<open>Bucket.Writes()\<close> and \<open>Bucket.Bytes()\<close> over the names the buffer tracks.
\<close>

theorem Buffer_totals_are_sums:
  assumes "distinct ks" and "set ks = dom (buckets (buffer w))"
  shows "Buffer_Writes ks w
           = (\<Sum>name\<in>dom (buckets (buffer w)). Bucket_Writes (heap w (the (buckets (buffer w) name)))) \<and>
         Buffer_Bytes ks w
           = (\<Sum>name\<in>dom (buckets (buffer w)). Bucket_Bytes (heap w (the (buckets (buffer w) name))))"
  using sum_list_tracked [OF assms, of "\<lambda>a. Bucket_Writes (heap w a)"]
        sum_list_tracked [OF assms, of "\<lambda>a. Bucket_Bytes (heap w a)"]
  by (simp add: Buffer_Writes_def Buffer_Bytes_def Writes_range_sum Bytes_range_sum)

theorem Buffer_totals_are_sums_witness:
  "distinct [''2'', ''1''] \<and>
   set [''2'', ''1''] = dom (buckets (buffer (run [Do_Write ''1'' [1, 2, 3], Do_Write ''2'' [4], Do_Write ''1'' [5]]
                                                (NewBuffer ''./test'' NewMemMapFs)))) \<and>
   Buffer_Writes [''2'', ''1''] (run [Do_Write ''1'' [1, 2, 3], Do_Write ''2'' [4], Do_Write ''1'' [5]]
                                    (NewBuffer ''./test'' NewMemMapFs)) = 3 \<and>
   Buffer_Bytes [''2'', ''1''] (run [Do_Write ''1'' [1, 2, 3], Do_Write ''2'' [4], Do_Write ''1'' [5]]
                                    (NewBuffer ''./test'' NewMemMapFs)) = 5 \<and>
   (\<Sum>name\<in>{''1'', ''2''}. Bucket_Writes (heap (run [Do_Write ''1'' [1, 2, 3], Do_Write ''2'' [4], Do_Write ''1'' [5]]
                                    (NewBuffer ''./test'' NewMemMapFs))
        (the (buckets (buffer (run [Do_Write ''1'' [1, 2, 3], Do_Write ''2'' [4], Do_Write ''1'' [5]]
                                    (NewBuffer ''./test'' NewMemMapFs))) name)))) = 3"
proof -
  let ?w = "run [Do_Write ''1'' [1, 2, 3], Do_Write ''2'' [4], Do_Write ''1'' [5]]
                (NewBuffer ''./test'' NewMemMapFs)"
  have d: "distinct [''2'', ''1'']" by simp
  have dm: "dom (buckets (buffer ?w)) = {''1'', ''2''}"
    by (simp add: buffer_defs fs_defs bufio_defs bucket_defs insert_commute)
  have s: "set [''2'', ''1''] = dom (buckets (buffer ?w))"
    unfolding dm by auto
  have v: "Buffer_Writes [''2'', ''1''] ?w = 3" "Buffer_Bytes [''2'', ''1''] ?w = 5"
    by (simp_all add: buffer_defs fs_defs bufio_defs bucket_defs)
  from Buffer_totals_are_sums [OF d s] have
    "Buffer_Writes [''2'', ''1''] ?w
       = (\<Sum>name\<in>dom (buckets (buffer ?w)). Bucket_Writes (heap ?w (the (buckets (buffer ?w) name))))"
    by (rule conjunct1)
  then have "(\<Sum>name\<in>{''1'', ''2''}. Bucket_Writes (heap ?w (the (buckets (buffer ?w) name)))) = 3"
    unfolding dm v by (rule sym)
  with v d s show ?thesis
    by (intro conjI)
qed

subsection \<open>Loops over the buckets of a buffer\<close>

lemma on_bucket_buffer [simp]: "buffer (snd (on_bucket m a w)) = buffer w"
  by (simp add: on_bucket_def split: prod.splits)

lemma on_bucket_heap_other:
  "a' \<noteq> a \<Longrightarrow> heap (snd (on_bucket m a w)) a' = heap w a'"
  by (simp add: on_bucket_def split: prod.splits)

lemma on_bucket_Destroy_ok:
  assumes "fst (on_bucket Bucket_Destroy a w) = None"
  shows "\<exists>f. file (heap w a) = Some f \<and>
           files (world_fs (snd (on_bucket Bucket_Destroy a w))) (Clean (fname f)) = None \<and>
           dirs (world_fs (snd (on_bucket Bucket_Destroy a w))) = dirs (world_fs w) \<and>
           (\<forall>q. files (world_fs (snd (on_bucket Bucket_Destroy a w))) q \<noteq> None
                  \<longrightarrow> files (world_fs w) q \<noteq> None) \<and>
           (\<forall>a'. file (heap (snd (on_bucket Bucket_Destroy a w)) a') = file (heap w a'))"
proof -
  from assms have "fst (Bucket_Destroy (world_fs w, heap w a)) = None"
    by (simp add: on_bucket_def split: prod.splits)
  from Destroy_ok [OF this] show ?thesis
    by (auto simp: on_bucket_def)
qed

lemma Destroy_range_ok:
  "fst (Destroy_range ks w) = None \<Longrightarrow>
   buffer (snd (Destroy_range ks w)) = buffer w \<and>
   dirs (world_fs (snd (Destroy_range ks w))) = dirs (world_fs w) \<and>
   (\<forall>q. files (world_fs (snd (Destroy_range ks w))) q \<noteq> None \<longrightarrow> files (world_fs w) q \<noteq> None) \<and>
   (\<forall>a. file (heap (snd (Destroy_range ks w)) a) = file (heap w a)) \<and>
   (\<forall>k\<in>set ks. \<forall>a. buckets (buffer w) k = Some a \<longrightarrow>
      (\<exists>f. file (heap w a) = Some f \<and>
           files (world_fs (snd (Destroy_range ks w))) (Clean (fname f)) = None))"
proof (induction ks arbitrary: w)
  case Nil
  show ?case by simp
next
  case (Cons k ks)
  show ?case
  proof (cases "buckets (buffer w) k")
    case None
    with Cons.prems have "fst (Destroy_range ks w) = None" by simp
    from Cons.IH [OF this] None show ?thesis by auto
  next
    case (Some a)
    obtain e w1 where e: "on_bucket Bucket_Destroy a w = (e, w1)"
      by (cases "on_bucket Bucket_Destroy a w")
    with Cons.prems Some have e0: "e = None"
      by (cases e) simp_all
    with e Some have step: "Destroy_range (k # ks) w = Destroy_range ks w1"
      by simp
    with Cons.prems have ok: "fst (Destroy_range ks w1) = None" by simp
    from e e0 have "fst (on_bucket Bucket_Destroy a w) = None" by simp
    from on_bucket_Destroy_ok [OF this] e obtain f where f: "file (heap w a) = Some f"
      and rm: "files (world_fs w1) (Clean (fname f)) = None"
      and dr: "dirs (world_fs w1) = dirs (world_fs w)"
      and sh: "\<forall>q. files (world_fs w1) q \<noteq> None \<longrightarrow> files (world_fs w) q \<noteq> None"
      and fl: "\<forall>a'. file (heap w1 a') = file (heap w a')"
      by auto
    note ih = Cons.IH [OF ok]
    have b1: "buffer w1 = buffer w"
      using on_bucket_buffer [of Bucket_Destroy a w] e by simp
    from ih rm have here: "files (world_fs (snd (Destroy_range ks w1))) (Clean (fname f)) = None"
      by (cases "files (world_fs (snd (Destroy_range ks w1))) (Clean (fname f))") auto
    show ?thesis
      unfolding step
      using ih b1 dr sh fl f here Some
      by auto
  qed
qed

text \<open>
  Claim C7. After a \<open>Buffer.Reset()\<close> that returns nil (the loop visiting the names
  of the map in any order) the map is empty: \<open>Buckets()\<close> returns no name and
  \<open>Size()\<close> is 0. Each bucket that was tracked had a file, and the directory entry
  of that file is gone. \<open>Reset\<close> leaves the directories of the filesystem alone: a
  root directory that existed before still exists.
\<close>

theorem Reset_empties:
  assumes "set ks = dom (buckets (buffer w))" and "fst (Buffer_Reset ks w) = None"
  shows "Buffer_Buckets ks' (snd (Buffer_Reset ks w)) = [] \<and>
         Buffer_Size (snd (Buffer_Reset ks w)) = 0 \<and>
         buckets (buffer (snd (Buffer_Reset ks w))) = Map.empty \<and>
         (\<forall>name a. buckets (buffer w) name = Some a \<longrightarrow>
            (\<exists>f. file (heap w a) = Some f \<and>
                 files (world_fs (snd (Buffer_Reset ks w))) (Clean (fname f)) = None)) \<and>
         root (buffer (snd (Buffer_Reset ks w))) = root (buffer w) \<and>
         dirs (world_fs (snd (Buffer_Reset ks w))) = dirs (world_fs w) \<and>
         (Clean (root (buffer w)) \<in> dirs (world_fs w) \<longrightarrow>
            Clean (root (buffer w)) \<in> dirs (world_fs (snd (Buffer_Reset ks w))))"
proof -
  obtain e w1 where d: "Destroy_range ks w = (e, w1)" by (cases "Destroy_range ks w")
  with assms(2) have e: "e = None"
    by (cases e) (simp_all add: Buffer_Reset_def)
  with d have r: "snd (Buffer_Reset ks w) = w1\<lparr>buffer := (buffer w1)\<lparr>buckets := Map.empty\<rparr>\<rparr>"
    by (simp add: Buffer_Reset_def)
  from d e have "fst (Destroy_range ks w) = None" by simp
  from Destroy_range_ok [OF this] d
  have b: "buffer w1 = buffer w" and dr: "dirs (world_fs w1) = dirs (world_fs w)"
    and rm: "\<forall>k\<in>set ks. \<forall>a. buckets (buffer w) k = Some a \<longrightarrow>
      (\<exists>f. file (heap w a) = Some f \<and> files (world_fs w1) (Clean (fname f)) = None)"
    by simp_all
  have "\<exists>f. file (heap w a) = Some f \<and> files (world_fs w1) (Clean (fname f)) = None"
    if "buckets (buffer w) name = Some a" for name a
  proof -
    from that assms(1) have "name \<in> set ks" by auto
    with rm that show ?thesis by blast
  qed
  with r b dr show ?thesis
    by (simp add: Buffer_Buckets_def Buffer_Size_def)
qed


theorem Reset_empties_witness:
  "set [''2'', ''1''] = dom (buckets (buffer two_in_root)) \<and>
   fst (Buffer_Reset [''2'', ''1''] two_in_root) = None \<and>
   Clean (root (buffer two_in_root)) \<in> dirs (world_fs two_in_root) \<and>
   files (world_fs two_in_root) ''test/1'' = Some 0 \<and>
   Buffer_Buckets [''2'', ''1''] (snd (Buffer_Reset [''2'', ''1''] two_in_root)) = [] \<and>
   Buffer_Size (snd (Buffer_Reset [''2'', ''1''] two_in_root)) = 0 \<and>
   files (world_fs (snd (Buffer_Reset [''2'', ''1''] two_in_root))) ''test/1'' = None \<and>
   Clean (root (buffer two_in_root)) \<in> dirs (world_fs (snd (Buffer_Reset [''2'', ''1''] two_in_root)))"
proof -
  let ?w = two_in_root
  have dm: "dom (buckets (buffer ?w)) = {''1'', ''2''}"
    by (simp add: buffer_defs fs_defs bufio_defs bucket_defs insert_commute)
  have s: "set [''2'', ''1''] = dom (buckets (buffer ?w))"
    unfolding dm by auto
  have r: "fst (Buffer_Reset [''2'', ''1''] ?w) = None"
    by (simp add: buffer_defs fs_defs bufio_defs bucket_defs)
  have d: "Clean (root (buffer ?w)) \<in> dirs (world_fs ?w)"
    by (simp add: buffer_defs fs_defs bufio_defs bucket_defs)
  have f: "files (world_fs ?w) ''test/1'' = Some 0"
    by (simp add: buffer_defs fs_defs bufio_defs bucket_defs)
  have g: "files (world_fs (snd (Buffer_Reset [''2'', ''1''] ?w))) ''test/1'' = None"
    by (simp add: buffer_defs fs_defs bufio_defs bucket_defs)
  from Reset_empties [OF s r, of "[''2'', ''1'']"] d
  have "Buffer_Buckets [''2'', ''1''] (snd (Buffer_Reset [''2'', ''1''] ?w)) = []"
    and "Buffer_Size (snd (Buffer_Reset [''2'', ''1''] ?w)) = 0"
    and "Clean (root (buffer ?w)) \<in> dirs (world_fs (snd (Buffer_Reset [''2'', ''1''] ?w)))"
    by blast+
  with s r d f g show ?thesis
    by (intro conjI)
qed

lemma Close_never_opens:
  "\<not> open (snd s) \<Longrightarrow> \<not> open (snd (snd (Bucket_Close s)))"
  using exec_not_open [of s Call_Close] by simp

lemma on_bucket_Close_open:
  "\<not> open (heap w a') \<Longrightarrow> \<not> open (heap (snd (on_bucket Bucket_Close a w)) a')"
  using Close_never_opens [of "(world_fs w, heap w a)"]
  by (cases "Bucket_Close (world_fs w, heap w a)") (auto simp: on_bucket_def)

lemma on_bucket_Close_ok:
  assumes "fst (on_bucket Bucket_Close a w) = None"
  shows "\<not> open (heap (snd (on_bucket Bucket_Close a w)) a)"
proof -
  from assms have "fst (Bucket_Close (world_fs w, heap w a)) = None"
    by (simp add: on_bucket_def split: prod.splits)
  from Close_ok_not_open [OF this] show ?thesis
    by (cases "Bucket_Close (world_fs w, heap w a)") (simp add: on_bucket_def)
qed

lemma Close_range_buffer: "buffer (snd (Close_range ks w)) = buffer w"
proof (induction ks arbitrary: w)
  case Nil
  show ?case by simp
next
  case (Cons k ks)
  show ?case
  proof (cases "buckets (buffer w) k")
    case None
    with Cons.IH [of w] show ?thesis by simp
  next
    case (Some a)
    obtain e w1 where c: "on_bucket Bucket_Close a w = (e, w1)"
      by (cases "on_bucket Bucket_Close a w")
    have "buffer w1 = buffer w"
      using on_bucket_buffer [of Bucket_Close a w] c by simp
    with Cons.IH [of w1] Some c show ?thesis
      by (cases e) simp_all
  qed
qed

lemma Close_range_closed:
  "fst (Close_range ks w) = None \<Longrightarrow>
   (\<forall>a. \<not> open (heap w a) \<longrightarrow> \<not> open (heap (snd (Close_range ks w)) a)) \<and>
   (\<forall>k\<in>set ks. \<forall>a. buckets (buffer w) k = Some a \<longrightarrow> \<not> open (heap (snd (Close_range ks w)) a))"
proof (induction ks arbitrary: w)
  case Nil
  show ?case by simp
next
  case (Cons k ks)
  show ?case
  proof (cases "buckets (buffer w) k")
    case None
    with Cons.prems have "fst (Close_range ks w) = None" by simp
    from Cons.IH [OF this] None show ?thesis by auto
  next
    case (Some a)
    obtain e w1 where c: "on_bucket Bucket_Close a w = (e, w1)"
      by (cases "on_bucket Bucket_Close a w")
    with Cons.prems Some have e: "e = None"
      by (cases e) simp_all
    with c Some have step: "Close_range (k # ks) w = Close_range ks w1"
      by simp
    with Cons.prems have ok: "fst (Close_range ks w1) = None" by simp
    note ih = Cons.IH [OF ok]
    have b1: "buffer w1 = buffer w"
      using on_bucket_buffer [of Bucket_Close a w] c by simp
    have keep: "\<not> open (heap w1 a')" if "\<not> open (heap w a')" for a'
      using on_bucket_Close_open [OF that, of a] c by simp
    have here: "\<not> open (heap w1 a)"
      using on_bucket_Close_ok [of a w] c e by simp
    show ?thesis
      unfolding step using ih b1 keep here Some by auto
  qed
qed

lemma Close_range_append:
  "Close_range (xs @ ys) w =
     (case Close_range xs w of (Some e, w') \<Rightarrow> (Some e, w') | (None, w') \<Rightarrow> Close_range ys w')"
proof (induction xs arbitrary: w)
  case Nil
  show ?case by simp
next
  case (Cons k xs)
  show ?case
  proof (cases "buckets (buffer w) k")
    case None
    with Cons.IH [of w] show ?thesis by simp
  next
    case (Some a)
    obtain e w1 where c: "on_bucket Bucket_Close a w = (e, w1)"
      by (cases "on_bucket Bucket_Close a w")
    with Cons.IH [of w1] Some show ?thesis
      by (cases e) simp_all
  qed
qed

text \<open>
  Claim C8. \<open>Buffer.Close\<close> calls \<open>Close\<close> on the tracked buckets one after the
  other, in the order the map is visited. If all return nil it returns nil, the map is
  as before, and every tracked bucket is sealed: its \<open>open\<close> flag is false and a
  \<open>Write\<close> on it is rejected. If the buckets \<open>seen\<close> so far closed without error
  and the next one fails with \<open>e\<close>, \<open>Buffer.Close\<close> returns \<open>e\<close> and the state
  is the one that failed \<open>Close\<close> left: the buckets in \<open>rest\<close> are not visited.
\<close>

theorem Buffer_Close_seals_or_stops:
  "(set ks = dom (buckets (buffer w)) \<and> fst (Buffer_Close ks w) = None \<longrightarrow>
      (\<forall>name a. buckets (buffer w) name = Some a \<longrightarrow>
         buckets (buffer (snd (Buffer_Close ks w))) name = Some a \<and>
         \<not> open (heap (snd (Buffer_Close ks w)) a) \<and>
         fst (on_bucket (Bucket_Write d) a (snd (Buffer_Close ks w))) = Some ErrNotOpen)) \<and>
   (fst (Buffer_Close seen w) = None \<and> buckets (buffer w) k = Some a \<and>
    fst (on_bucket Bucket_Close a (snd (Buffer_Close seen w))) = Some e \<longrightarrow>
      Buffer_Close (seen @ k # rest) w = (Some e, snd (on_bucket Bucket_Close a (snd (Buffer_Close seen w)))))"
proof (intro conjI impI allI)
  fix name a
  assume h: "set ks = dom (buckets (buffer w)) \<and> fst (Buffer_Close ks w) = None"
    and t: "buckets (buffer w) name = Some a"
  from h t have "name \<in> set ks" by auto
  with Close_range_closed [of ks w] h t
  have cl: "\<not> open (heap (snd (Buffer_Close ks w)) a)"
    by (auto simp: Buffer_Close_def)
  from t show "buckets (buffer (snd (Buffer_Close ks w))) name = Some a"
    by (simp add: Buffer_Close_def Close_range_buffer)
  from cl show "\<not> open (heap (snd (Buffer_Close ks w)) a)" .
  from cl show "fst (on_bucket (Bucket_Write d) a (snd (Buffer_Close ks w))) = Some ErrNotOpen"
    by (simp add: on_bucket_def Write_rejected)
next
  assume h: "fst (Buffer_Close seen w) = None \<and> buckets (buffer w) k = Some a \<and>
    fst (on_bucket Bucket_Close a (snd (Buffer_Close seen w))) = Some e"
  obtain w1 where c1: "Close_range seen w = (None, w1)"
    using h by (cases "Close_range seen w") (auto simp: Buffer_Close_def)
  have b1: "buckets (buffer w1) k = Some a"
    using Close_range_buffer [of seen w] c1 h by simp
  obtain w2 where c2: "on_bucket Bucket_Close a w1 = (Some e, w2)"
    using h c1 by (cases "on_bucket Bucket_Close a w1") (auto simp: Buffer_Close_def)
  from c1 b1 c2
  show "Buffer_Close (seen @ k # rest) w = (Some e, snd (on_bucket Bucket_Close a (snd (Buffer_Close seen w))))"
    by (simp add: Buffer_Close_def Close_range_append)
qed


theorem Buffer_Close_seals_or_stops_witness:
  "set [''2'', ''1''] = dom (buckets (buffer two_buckets)) \<and>
   fst (Buffer_Close [''2'', ''1''] two_buckets) = None \<and>
   buckets (buffer two_buckets) ''1'' = Some 0 \<and>
   \<not> open (heap (snd (Buffer_Close [''2'', ''1''] two_buckets)) 0) \<and>
   fst (on_bucket (Bucket_Write [9]) 0 (snd (Buffer_Close [''2'', ''1''] two_buckets))) = Some ErrNotOpen \<and>
   fst (Buffer_Close [''1''] third_seek_fails) = None \<and>
   buckets (buffer third_seek_fails) ''2'' = Some 1 \<and>
   fst (on_bucket Bucket_Close 1 (snd (Buffer_Close [''1''] third_seek_fails))) = Some ErrIO \<and>
   fst (Buffer_Close ([''1''] @ ''2'' # [''3'']) third_seek_fails) = Some ErrIO \<and>
   open (heap (snd (Buffer_Close ([''1''] @ ''2'' # [''3'']) third_seek_fails)) 2)"
proof -
  let ?w = two_buckets
  let ?f = third_seek_fails
  have dm: "dom (buckets (buffer ?w)) = {''1'', ''2''}"
    by (simp add: buffer_defs fs_defs bufio_defs bucket_defs insert_commute)
  have s: "set [''2'', ''1''] = dom (buckets (buffer ?w))"
    unfolding dm by auto
  have c: "fst (Buffer_Close [''2'', ''1''] ?w) = None"
    by (simp add: buffer_defs fs_defs bufio_defs bucket_defs)
  have t: "buckets (buffer ?w) ''1'' = Some 0"
    by (simp add: buffer_defs fs_defs bufio_defs bucket_defs)
  have c1: "fst (Buffer_Close [''1''] ?f) = None"
    by (simp add: buffer_defs fs_defs bufio_defs bucket_defs)
  have t2: "buckets (buffer ?f) ''2'' = Some 1"
    by (simp add: buffer_defs fs_defs bufio_defs bucket_defs)
  have e: "fst (on_bucket Bucket_Close 1 (snd (Buffer_Close [''1''] ?f))) = Some ErrIO"
    by (simp add: buffer_defs fs_defs bufio_defs bucket_defs)
  have o: "open (heap (snd (on_bucket Bucket_Close 1 (snd (Buffer_Close [''1''] ?f)))) 2)"
    by (simp add: buffer_defs fs_defs bufio_defs bucket_defs)
  note inst1 = Buffer_Close_seals_or_stops [where ks = "[''2'', ''1'']" and w = ?w and d = "[9]"]
  note inst2 = Buffer_Close_seals_or_stops
    [where w = ?f and seen = "[''1'']" and k = "''2''" and a = 1 and e = ErrIO and rest = "[''3'']"]
  from inst1 s c t have p1: "\<not> open (heap (snd (Buffer_Close [''2'', ''1''] ?w)) 0)"
    "fst (on_bucket (Bucket_Write [9]) 0 (snd (Buffer_Close [''2'', ''1''] ?w))) = Some ErrNotOpen"
    by blast+
  from inst2 c1 t2 e have p2: "Buffer_Close ([''1''] @ ''2'' # [''3'']) ?f
      = (Some ErrIO, snd (on_bucket Bucket_Close 1 (snd (Buffer_Close [''1''] ?f))))"
    by blast
  from p2 o have p3: "fst (Buffer_Close ([''1''] @ ''2'' # [''3'']) ?f) = Some ErrIO"
    "open (heap (snd (Buffer_Close ([''1''] @ ''2'' # [''3'']) ?f)) 2)"
    by simp_all
  from s c t p1 c1 t2 e p3 show ?thesis
    by (intro conjI)
qed

subsection \<open>Get\<close>

lemma Get_tracked: "buckets (buffer w) name = Some a \<Longrightarrow> Get name w = (Inr a, w)"
  by (simp add: Get_def)

lemma Get_keeps:
  assumes "buckets (buffer w) name = Some a"
  shows "buckets (buffer (snd (Get n w))) name = Some a"
proof (cases "buckets (buffer w) n")
  case (Some a')
  with assms show ?thesis by (simp add: Get_def)
next
  case None
  with assms have ne: "n \<noteq> name" by auto
  let ?w1 = "w\<lparr>heap := (heap w)(allocs w := NewBucket (Join (root (buffer w)) n)),
               allocs := Suc (allocs w)\<rparr>"
  obtain e w2 where o: "on_bucket Bucket_Open (allocs w) ?w1 = (e, w2)"
    by (cases "on_bucket Bucket_Open (allocs w) ?w1")
  have "buffer w2 = buffer w"
    using on_bucket_buffer [of Bucket_Open "allocs w" ?w1] o by simp
  with None o ne assms show ?thesis
    by (cases e) (simp_all add: Get_def Let_def)
qed

lemma Get_result:
  "fst (Get name w) = Inr a \<Longrightarrow> buckets (buffer (snd (Get name w))) name = Some a"
proof (cases "buckets (buffer w) name")
  case (Some a')
  assume "fst (Get name w) = Inr a"
  with Some show ?thesis by (simp add: Get_def)
next
  case None
  assume g: "fst (Get name w) = Inr a"
  let ?w1 = "w\<lparr>heap := (heap w)(allocs w := NewBucket (Join (root (buffer w)) name)),
               allocs := Suc (allocs w)\<rparr>"
  obtain e w2 where o: "on_bucket Bucket_Open (allocs w) ?w1 = (e, w2)"
    by (cases "on_bucket Bucket_Open (allocs w) ?w1")
  with None g show ?thesis
    by (cases e) (simp_all add: Get_def Let_def)
qed

lemma exec_keeps_tracked:
  assumes "\<not> resets c" and "buckets (buffer w) name = Some a"
  shows "buckets (buffer (snd (exec c w))) name = Some a"
proof (cases c)
  case Do_Open
  with assms show ?thesis
    by (simp add: Buffer_Open_def split: prod.splits)
next
  case (Do_Close ks)
  with assms show ?thesis
    by (simp add: Buffer_Close_def Close_range_buffer)
next
  case (Do_Destroy ks)
  with assms show ?thesis by simp
next
  case (Do_Reset ks)
  with assms show ?thesis by simp
next
  case (Do_Get n)
  with Get_keeps [OF assms(2), of n] show ?thesis
    by (cases "Get n w") (auto split: sum.splits)
next
  case (Do_Write n d)
  with Get_keeps [OF assms(2), of n] show ?thesis
    by (cases "Get n w") (auto simp: Buffer_Write_def split: sum.splits)
next
  case (Do_Bucket a' bc)
  with assms show ?thesis by simp
qed

lemma run_keeps_tracked:
  "\<forall>c\<in>set cs. \<not> resets c \<Longrightarrow> buckets (buffer w) name = Some a \<Longrightarrow>
   buckets (buffer (run cs w)) name = Some a"
proof (induction cs arbitrary: w)
  case Nil
  then show ?case by simp
next
  case (Cons c cs)
  from Cons.prems have "buckets (buffer (snd (exec c w))) name = Some a"
    by (intro exec_keeps_tracked) simp_all
  with Cons show ?case by simp
qed

text \<open>
  Claim C5, as amended. \<open>Buffer.Get\<close> is an idempotent get-or-create between
  resets. If \<open>Get(name)\<close> returned the bucket \<open>a\<close>, then after any calls on the buffer
  and its buckets other than \<open>Buffer.Reset\<close> and \<open>Buffer.Destroy\<close>, \<open>Get(name)\<close>
  returns the same pointer \<open>a\<close> and changes nothing: no bucket object is made. The
  lazy \<open>Get\<close> of the earlier revision returns the same pointer on the second call too.
\<close>

theorem Get_idempotent:
  "(fst (Get name w) = Inr a \<and> (\<forall>c\<in>set cs. \<not> resets c) \<longrightarrow>
      Get name (run cs (snd (Get name w))) = (Inr a, run cs (snd (Get name w)))) \<and>
   (fst (Get_lazy name w) = Inr a \<longrightarrow>
      Get_lazy name (snd (Get_lazy name w)) = (Inr a, snd (Get_lazy name w)))"
proof (intro conjI impI)
  assume h: "fst (Get name w) = Inr a \<and> (\<forall>c\<in>set cs. \<not> resets c)"
  then have "buckets (buffer (snd (Get name w))) name = Some a"
    by (simp add: Get_result)
  with h have "buckets (buffer (run cs (snd (Get name w)))) name = Some a"
    by (intro run_keeps_tracked) simp_all
  then show "Get name (run cs (snd (Get name w))) = (Inr a, run cs (snd (Get name w)))"
    by (rule Get_tracked)
next
  assume "fst (Get_lazy name w) = Inr a"
  then have "buckets (buffer (snd (Get_lazy name w))) name = Some a"
    by (cases "buckets (buffer w) name") (auto simp: Get_lazy_def Let_def)
  then show "Get_lazy name (snd (Get_lazy name w)) = (Inr a, snd (Get_lazy name w))"
    by (simp add: Get_lazy_def)
qed

theorem Get_idempotent_witness:
  "fst (Get ''existing'' (NewBuffer ''./test'' NewMemMapFs)) = Inr 0 \<and>
   list_all (\<lambda>c. \<not> resets c)
     [Do_Write ''other'' [1], Do_Close [''existing'', ''other''], Do_Bucket 0 Call_Destroy] \<and>
   fst (Get ''existing''
         (run [Do_Write ''other'' [1], Do_Close [''existing'', ''other''], Do_Bucket 0 Call_Destroy]
              (snd (Get ''existing'' (NewBuffer ''./test'' NewMemMapFs))))) = Inr 0 \<and>
   allocs (snd (Get ''existing''
         (run [Do_Write ''other'' [1], Do_Close [''existing'', ''other''], Do_Bucket 0 Call_Destroy]
              (snd (Get ''existing'' (NewBuffer ''./test'' NewMemMapFs))))))
     = allocs (run [Do_Write ''other'' [1], Do_Close [''existing'', ''other''], Do_Bucket 0 Call_Destroy]
              (snd (Get ''existing'' (NewBuffer ''./test'' NewMemMapFs)))) \<and>
   fst (Get_lazy ''existing'' (NewBuffer ''./test'' NewMemMapFs)) = Inr 0 \<and>
   fst (Get_lazy ''existing'' (snd (Get_lazy ''existing'' (NewBuffer ''./test'' NewMemMapFs)))) = Inr 0"
proof -
  let ?w = "NewBuffer ''./test'' NewMemMapFs"
  let ?cs = "[Do_Write ''other'' [1], Do_Close [''existing'', ''other''], Do_Bucket 0 Call_Destroy]"
  have g: "fst (Get ''existing'' ?w) = Inr 0"
    by (simp add: buffer_defs fs_defs bufio_defs bucket_defs)
  have n: "\<forall>c\<in>set ?cs. \<not> resets c"
    by simp
  have l: "fst (Get_lazy ''existing'' ?w) = Inr 0"
    by (simp add: buffer_defs)
  note inst = Get_idempotent [of "''existing''" ?w 0 ?cs]
  from inst g n have p1: "Get ''existing'' (run ?cs (snd (Get ''existing'' ?w)))
      = (Inr 0, run ?cs (snd (Get ''existing'' ?w)))"
    by blast
  from inst l have p2: "Get_lazy ''existing'' (snd (Get_lazy ''existing'' ?w))
      = (Inr 0, snd (Get_lazy ''existing'' ?w))"
    by blast
  from p1 have q1: "fst (Get ''existing'' (run ?cs (snd (Get ''existing'' ?w)))) = Inr 0"
    "allocs (snd (Get ''existing'' (run ?cs (snd (Get ''existing'' ?w)))))
       = allocs (run ?cs (snd (Get ''existing'' ?w)))"
    by simp_all
  from p2 have q2: "fst (Get_lazy ''existing'' (snd (Get_lazy ''existing'' ?w))) = Inr 0"
    by simp
  have n': "list_all (\<lambda>c. \<not> resets c) ?cs"
    by simp
  from g n' q1 l q2 show ?thesis
    by (intro conjI)
qed

text \<open>
  The claim as stated also bounds the bucket objects made for a name over the whole
  life of the buffer by one. \<open>Reset\<close> replaces the map by an empty one, so the next
  \<open>Get\<close> of the name makes a second object: here the first \<open>Get\<close> returns the object
  at address 0, and after \<open>Reset\<close> the same name yields a new object at address 1.
\<close>

theorem Get_after_Reset_creates_again:
  "fst (Get ''a'' (NewBuffer ''./test'' NewMemMapFs)) = Inr 0 \<and>
   allocs (snd (Get ''a'' (NewBuffer ''./test'' NewMemMapFs))) = 1 \<and>
   fst (Buffer_Reset [''a''] (snd (Get ''a'' (NewBuffer ''./test'' NewMemMapFs)))) = None \<and>
   fst (Get ''a'' (snd (Buffer_Reset [''a''] (snd (Get ''a'' (NewBuffer ''./test'' NewMemMapFs))))))
     = Inr 1 \<and>
   allocs (snd (Get ''a'' (snd (Buffer_Reset [''a''] (snd (Get ''a'' (NewBuffer ''./test'' NewMemMapFs)))))))
     = 2"
  by (simp add: buffer_defs fs_defs bufio_defs bucket_defs)

lemma writing_fresh:
  assumes "writing [] (fs, b)"
  shows "open b \<and> (\<exists>f w. file b = Some f \<and> writer b = Some w \<and> werr w = None \<and> wbuf w = [] \<and>
            fname f = path b \<and> files fs (Clean (path b)) = Some (ino f))"
  using assms
  by (auto simp: writing_def appending_def stored_def split: option.splits)

lemma Write_fresh:
  assumes "open b" "file b = Some f" "writer b = Some wr" "werr wr = None" "wbuf wr = []"
    and "length d \<le> defaultBufSize \<or> True \<notin> set (faults fs)"
  shows "fst (Bucket_Write d (fs, b)) = None"
proof -
  have "fst (bufio_Write d (fs, f, wr)) = None"
  proof (cases "length d \<le> defaultBufSize")
    case True
    with assms show ?thesis by (simp add: bufio_Write_fits Available_def)
  next
    case False
    with assms show ?thesis by (intro bufio_Write_clean) simp_all
  qed
  with assms show ?thesis
    by (cases "bufio_Write d (fs, f, wr)") (auto simp: Bucket_Write_def on_writer_def)
qed

text \<open>
  Claim C10, as amended. In the eager variant a \<open>Buffer.Get(name)\<close> that creates the
  bucket (the name was not tracked) opens it before it enters the map: when such a
  \<open>Get\<close> returns the bucket \<open>a\<close>, the name is mapped to \<open>a\<close>, \<open>a\<close> has
  \<open>open == true\<close>, and its file exists at \<open>filepath.Join(root, name)\<close>. A following
  \<open>Bucket.Write\<close> succeeds without a call of \<open>Open\<close>: always for a payload that
  fits the empty buffer, and for a larger one unless the storage fails.
\<close>

theorem Get_creates_open:
  assumes "buckets (buffer w) name = None" and "fst (Get name w) = Inr a"
  shows "buckets (buffer (snd (Get name w))) name = Some a \<and>
         open (heap (snd (Get name w)) a) \<and>
         path (heap (snd (Get name w)) a) = Join (root (buffer w)) name \<and>
         (\<exists>f. file (heap (snd (Get name w)) a) = Some f \<and>
              fname f = Join (root (buffer w)) name \<and>
              files (world_fs (snd (Get name w))) (Clean (Join (root (buffer w)) name)) = Some (ino f)) \<and>
         (length d \<le> defaultBufSize \<or> True \<notin> set (faults (world_fs (snd (Get name w)))) \<longrightarrow>
            fst (on_bucket (Bucket_Write d) a (snd (Get name w))) = None)"
proof -
  let ?p = "Join (root (buffer w)) name"
  obtain e fs' b' where o: "Bucket_Open (world_fs w, NewBucket ?p) = (e, fs', b')"
    by (cases "Bucket_Open (world_fs w, NewBucket ?p)")
  from assms o have e: "e = None" and a: "a = allocs w"
    by (cases e; simp add: Get_def Let_def on_bucket_def)+
  from assms(1) o e
  have g: "snd (Get name w) = w\<lparr>heap := (heap w)(allocs w := b'), allocs := Suc (allocs w),
              world_fs := fs',
              buffer := (buffer w)\<lparr>buckets := (buckets (buffer w))(name \<mapsto> allocs w)\<rparr>\<rparr>"
    by (simp add: Get_def Let_def on_bucket_def)
  from o e have "writing [] (fs', b')"
    using Open_writing [of "(world_fs w, NewBucket ?p)"] by simp
  from writing_fresh [OF this] obtain f wr where b: "open b'" "file b' = Some f"
    "writer b' = Some wr" "werr wr = None" "wbuf wr = []" "fname f = path b'"
    "files fs' (Clean (path b')) = Some (ino f)"
    by blast
  have p: "path b' = ?p"
    using Open_path [of "(world_fs w, NewBucket ?p)"] o by (simp add: NewBucket_def)
  have wr: "fst (Bucket_Write d (fs', b')) = None"
    if "length d \<le> defaultBufSize \<or> True \<notin> set (faults fs')"
    using Write_fresh [OF b(1-5) that] .
  have "fst (on_bucket (Bucket_Write d) a (snd (Get name w))) = fst (Bucket_Write d (fs', b'))"
    unfolding g a by (simp add: on_bucket_def split: prod.splits)
  with wr g a b p show ?thesis
    by simp
qed

theorem Get_creates_open_witness:
  "buckets (buffer (NewBuffer ''./test'' NewMemMapFs)) ''new'' = None \<and>
   fst (Get ''new'' (NewBuffer ''./test'' NewMemMapFs)) = Inr 0 \<and>
   True \<notin> set (faults (world_fs (snd (Get ''new'' (NewBuffer ''./test'' NewMemMapFs))))) \<and>
   open (heap (snd (Get ''new'' (NewBuffer ''./test'' NewMemMapFs))) 0) \<and>
   path (heap (snd (Get ''new'' (NewBuffer ''./test'' NewMemMapFs))) 0) = ''test/new'' \<and>
   fst (on_bucket (Bucket_Write (replicate 5000 7)) 0 (snd (Get ''new'' (NewBuffer ''./test'' NewMemMapFs))))
     = None"
proof -
  let ?w = "NewBuffer ''./test'' NewMemMapFs"
  have n: "buckets (buffer ?w) ''new'' = None"
    by (simp add: buffer_defs)
  have g: "fst (Get ''new'' ?w) = Inr 0"
    by (simp add: buffer_defs fs_defs bufio_defs bucket_defs)
  have c: "True \<notin> set (faults (world_fs (snd (Get ''new'' ?w))))"
    by (simp add: buffer_defs fs_defs bufio_defs bucket_defs)
  have j: "Join (root (buffer ?w)) ''new'' = ''test/new''"
    by (simp add: buffer_defs)
  note inst = Get_creates_open [OF n g, of "replicate 5000 7"]
  from inst c have "open (heap (snd (Get ''new'' ?w)) 0)"
    "path (heap (snd (Get ''new'' ?w)) 0) = Join (root (buffer ?w)) ''new''"
    "fst (on_bucket (Bucket_Write (replicate 5000 7)) 0 (snd (Get ''new'' ?w))) = None"
    by blast+
  with n g c j show ?thesis
    by (simp only: simp_thms)
qed

text \<open>
  The claim as stated speaks of any successful \<open>Get\<close>. For a name that is tracked,
  \<open>Get\<close> returns the bucket as it is, and after \<open>Buffer.Close\<close> that bucket is
  closed: this is the README's way of reading a bucket back. The returned bucket then
  has \<open>open == false\<close> and rejects a \<open>Write\<close>.
\<close>

theorem Get_returns_closed_bucket:
  "fst (Get ''bucket'' (NewBuffer ''./data'' NewMemMapFs)) = Inr 0 \<and>
   fst (Buffer_Close [''bucket''] (snd (Get ''bucket'' (NewBuffer ''./data'' NewMemMapFs)))) = None \<and>
   fst (Get ''bucket'' (snd (Buffer_Close [''bucket''] (snd (Get ''bucket'' (NewBuffer ''./data'' NewMemMapFs))))))
     = Inr 0 \<and>
   \<not> open (heap (snd (Get ''bucket'' (snd (Buffer_Close [''bucket'']
                    (snd (Get ''bucket'' (NewBuffer ''./data'' NewMemMapFs))))))) 0) \<and>
   fst (on_bucket (Bucket_Write [1]) 0
          (snd (Get ''bucket'' (snd (Buffer_Close [''bucket'']
                    (snd (Get ''bucket'' (NewBuffer ''./data'' NewMemMapFs))))))))
     = Some ErrNotOpen"
  by (simp add: buffer_defs fs_defs bufio_defs bucket_defs)

end
